theory Spec2Isabelle
  imports Main "HOL-Library.Sublist"
begin

section \<open>Strings\<close>

text \<open>
  Python strings are modelled as \<open>string\<close>; one \<open>char\<close> stands for one code point (those
  below 256). \<open>isspace\<close> is \<^verbatim>\<open>str.isspace\<close> on that range, \<open>strip\<close> is \<^verbatim>\<open>str.strip()\<close>
  and \<open>str_join sep xs\<close> is \<^verbatim>\<open>sep.join(xs)\<close>.
\<close>

definition isspace :: "char \<Rightarrow> bool" where
  "isspace c = (of_char c \<in> {9, 10, 11, 12, 13, 28, 29, 30, 31, 32, 133, 160 :: nat})"

definition strip :: "string \<Rightarrow> string" where
  "strip s = rev (dropWhile isspace (rev (dropWhile isspace s)))"

fun str_join :: "string \<Rightarrow> string list \<Rightarrow> string" where
  "str_join sep [] = []"
| "str_join sep [x] = x"
| "str_join sep (x # y # ys) = x @ sep @ str_join sep (y # ys)"

section \<open>The PyThaiNLP collaborators and the lazily loaded module globals\<close>

text \<open>
  A raised \<^verbatim>\<open>Exception\<close> is a value of \<open>exn\<close>; a call that may raise returns
  \<open>exn + 'a\<close>. \<^verbatim>\<open>word_tokenize(s, engine="newmm", keep_whitespace=False)\<close> and
  \<^verbatim>\<open>sent_tokenize(text)\<close> are functions of the string they are given. The package
  \<open>pythainlp\<close> is what the two deferred \<^verbatim>\<open>from ... import\<close> statements yield (an import
  may raise as well); \<open>globals\<close> holds the module variables \<^verbatim>\<open>_tokenize\<close> and
  \<^verbatim>\<open>_sent_tokenize\<close>, \<open>None\<close> until first use.
\<close>

datatype exn = ImportError | SegmenterError | TokenizerError

type_synonym word_tokenizer = "string \<Rightarrow> exn + string list"
type_synonym sent_tokenizer = "string \<Rightarrow> exn + string list"

record pythainlp =
  import_word_tokenize :: "exn + word_tokenizer"
  import_sent_tokenize :: "exn + sent_tokenizer"

record globals =
  g_tokenize :: "word_tokenizer option"
  g_sent_tokenize :: "sent_tokenizer option"

definition get_tokenize :: "pythainlp \<Rightarrow> globals \<Rightarrow> (exn + word_tokenizer) \<times> globals" where
  "get_tokenize lib g =
     (case g_tokenize g of
        None \<Rightarrow>
          (case import_word_tokenize lib of
             Inl e \<Rightarrow> (Inl e, g)
           | Inr word_tokenize \<Rightarrow> (Inr word_tokenize, g\<lparr>g_tokenize := Some word_tokenize\<rparr>))
      | Some f \<Rightarrow> (Inr f, g))"

definition get_sent_tokenize :: "pythainlp \<Rightarrow> globals \<Rightarrow> (exn + sent_tokenizer) \<times> globals" where
  "get_sent_tokenize lib g =
     (case g_sent_tokenize g of
        None \<Rightarrow>
          (case import_sent_tokenize lib of
             Inl e \<Rightarrow> (Inl e, g)
           | Inr sent_tokenize \<Rightarrow> (Inr sent_tokenize, g\<lparr>g_sent_tokenize := Some sent_tokenize\<rparr>))
      | Some f \<Rightarrow> (Inr f, g))"

section \<open>Request and response\<close>

text \<open>
  \<^verbatim>\<open>ChunkRequest\<close> and \<^verbatim>\<open>ChunkResponse\<close>. The response's \<^verbatim>\<open>elapsed_ms\<close> is a wall-clock
  measurement and is left out. \<open>valid_request\<close> is the \<^verbatim>\<open>Field\<close> validation that every
  request has passed before \<^verbatim>\<open>chunk\<close> is entered.
\<close>

record chunk_request =
  "text" :: string
  max_tokens :: int
  overlap :: int

record chunk_response =
  chunks :: "string list"
  count :: int

definition valid_request :: "chunk_request \<Rightarrow> bool" where
  "valid_request req =
     (1 \<le> length (text req) \<and> length (text req) \<le> 500000 \<and>
      50 \<le> max_tokens req \<and> max_tokens req \<le> 2000 \<and>
      0 \<le> overlap req \<and> overlap req \<le> 200)"

section \<open>The chunk endpoint\<close>

text \<open>
  The inner loop of the flush (lines 285--290): \<open>overlap_scan word_tok ov xs overlap_sents
  overlap_count\<close> walks \<open>xs = reversed(current_sentences)\<close>, re-tokenising each sentence.
\<close>

fun overlap_scan ::
  "word_tokenizer \<Rightarrow> int \<Rightarrow> string list \<Rightarrow> string list \<Rightarrow> int \<Rightarrow> exn + (string list \<times> int)" where
  "overlap_scan word_tok ov [] overlap_sents overlap_count = Inr (overlap_sents, overlap_count)"
| "overlap_scan word_tok ov (s # rest) overlap_sents overlap_count =
     (case word_tok s of
        Inl e \<Rightarrow> Inl e
      | Inr toks \<Rightarrow>
          (let s_tc = int (length toks) in
           if overlap_count + s_tc > ov then Inr (overlap_sents, overlap_count)
           else overlap_scan word_tok ov rest (s # overlap_sents) (overlap_count + s_tc)))"

text \<open>
  The flush (lines 279--295): the buffer is emitted and replaced by its overlap tail.
  The result is the new \<open>(chunks, current_sentences, current_token_count)\<close>; the local
  \<^verbatim>\<open>chunks\<close> is written \<open>chunks_acc\<close>.
\<close>

definition flush ::
  "word_tokenizer \<Rightarrow> int \<Rightarrow> string list \<Rightarrow> string list \<Rightarrow> exn + (string list \<times> string list \<times> int)" where
  "flush word_tok ov chunks_acc current_sentences =
     (let chunks' = chunks_acc @ [str_join '' '' current_sentences] in
      if ov > 0 then
        (case overlap_scan word_tok ov (rev current_sentences) [] 0 of
           Inl e \<Rightarrow> Inl e
         | Inr (overlap_sents, overlap_count) \<Rightarrow> Inr (chunks', overlap_sents, overlap_count))
      else Inr (chunks', [], 0))"

text \<open>The main loop over \<open>sentences\<close> (lines 270--298).\<close>

fun chunk_loop ::
  "word_tokenizer \<Rightarrow> int \<Rightarrow> int \<Rightarrow> string list \<Rightarrow> string list \<Rightarrow> int \<Rightarrow> string list
     \<Rightarrow> exn + (string list \<times> string list \<times> int)" where
  "chunk_loop word_tok mx ov chunks_acc current_sentences current_token_count [] =
     Inr (chunks_acc, current_sentences, current_token_count)"
| "chunk_loop word_tok mx ov chunks_acc current_sentences current_token_count (sent0 # rest) =
     (let sent = strip sent0 in
      if sent = [] then chunk_loop word_tok mx ov chunks_acc current_sentences current_token_count rest
      else
        (case word_tok sent of
           Inl e \<Rightarrow> Inl e
         | Inr sent_tokens \<Rightarrow>
             (let sent_token_count = int (length sent_tokens) in
              if current_token_count + sent_token_count > mx \<and> current_sentences \<noteq> [] then
                (case flush word_tok ov chunks_acc current_sentences of
                   Inl e \<Rightarrow> Inl e
                 | Inr (chunks', current_sentences', current_token_count') \<Rightarrow>
                     chunk_loop word_tok mx ov chunks' (current_sentences' @ [sent])
                       (current_token_count' + sent_token_count) rest)
              else
                chunk_loop word_tok mx ov chunks_acc (current_sentences @ [sent])
                  (current_token_count + sent_token_count) rest)))"

text \<open>Lines 300--302: the remaining buffer is flushed after the loop.\<close>

definition flush_remaining :: "string list \<times> string list \<times> int \<Rightarrow> string list" where
  "flush_remaining st =
     (case st of (chunks_acc, current_sentences, current_token_count) \<Rightarrow>
        if current_sentences \<noteq> [] then chunks_acc @ [str_join '' '' current_sentences] else chunks_acc)"

definition whole_document :: "chunk_request \<Rightarrow> chunk_response" where
  "whole_document req = \<lparr>chunks = [text req], count = 1\<rparr>"

text \<open>Lines 261--309, with both collaborators at hand.\<close>

definition chunk_body :: "sent_tokenizer \<Rightarrow> word_tokenizer \<Rightarrow> chunk_request \<Rightarrow> exn + chunk_response" where
  "chunk_body sent_tok word_tok req =
     (case sent_tok (text req) of
        Inl e \<Rightarrow> Inl e
      | Inr sentences \<Rightarrow>
          if sentences = [] then Inr (whole_document req)
          else
            (case chunk_loop word_tok (max_tokens req) (overlap req) [] [] 0 sentences of
               Inl e \<Rightarrow> Inl e
             | Inr st \<Rightarrow>
                 (let chunks' = flush_remaining st
                  in Inr \<lparr>chunks = chunks', count = int (length chunks')\<rparr>)))"

text \<open>The body of the \<^verbatim>\<open>try\<close> (lines 258--309) and the endpoint with its handler.\<close>

definition chunk_try :: "pythainlp \<Rightarrow> globals \<Rightarrow> chunk_request \<Rightarrow> (exn + chunk_response) \<times> globals" where
  "chunk_try lib g req =
     (case get_sent_tokenize lib g of
        (Inl e, g1) \<Rightarrow> (Inl e, g1)
      | (Inr sent_tok, g1) \<Rightarrow>
          (case get_tokenize lib g1 of
             (Inl e, g2) \<Rightarrow> (Inl e, g2)
           | (Inr word_tok, g2) \<Rightarrow> (chunk_body sent_tok word_tok req, g2)))"

definition chunk :: "pythainlp \<Rightarrow> globals \<Rightarrow> chunk_request \<Rightarrow> chunk_response \<times> globals" where
  "chunk lib g req =
     (case chunk_try lib g req of
        (Inl e, g') \<Rightarrow> (whole_document req, g')
      | (Inr response, g') \<Rightarrow> (response, g'))"

section \<open>The variant that caches the per-sentence token counts\<close>

text \<open>
  The optimisation the design notes describe: each buffered sentence keeps the token count that
  the main pass computed for it, and the backward overlap scan reads that count
  instead of calling the tokenizer again. Everything else is the endpoint above.
\<close>

fun overlap_scan_cached ::
  "int \<Rightarrow> (string \<times> int) list \<Rightarrow> (string \<times> int) list \<Rightarrow> int \<Rightarrow> (string \<times> int) list \<times> int" where
  "overlap_scan_cached ov [] overlap_sents overlap_count = (overlap_sents, overlap_count)"
| "overlap_scan_cached ov ((s, s_tc) # rest) overlap_sents overlap_count =
     (if overlap_count + s_tc > ov then (overlap_sents, overlap_count)
      else overlap_scan_cached ov rest ((s, s_tc) # overlap_sents) (overlap_count + s_tc))"

definition flush_cached ::
  "int \<Rightarrow> string list \<Rightarrow> (string \<times> int) list \<Rightarrow> string list \<times> (string \<times> int) list \<times> int" where
  "flush_cached ov chunks_acc current_sentences =
     (let chunks' = chunks_acc @ [str_join '' '' (map fst current_sentences)] in
      if ov > 0 then
        (case overlap_scan_cached ov (rev current_sentences) [] 0 of
           (overlap_sents, overlap_count) \<Rightarrow> (chunks', overlap_sents, overlap_count))
      else (chunks', [], 0))"

fun chunk_loop_cached ::
  "word_tokenizer \<Rightarrow> int \<Rightarrow> int \<Rightarrow> string list \<Rightarrow> (string \<times> int) list \<Rightarrow> int \<Rightarrow> string list
     \<Rightarrow> exn + (string list \<times> (string \<times> int) list \<times> int)" where
  "chunk_loop_cached word_tok mx ov chunks_acc current_sentences current_token_count [] =
     Inr (chunks_acc, current_sentences, current_token_count)"
| "chunk_loop_cached word_tok mx ov chunks_acc current_sentences current_token_count (sent0 # rest) =
     (let sent = strip sent0 in
      if sent = [] then
        chunk_loop_cached word_tok mx ov chunks_acc current_sentences current_token_count rest
      else
        (case word_tok sent of
           Inl e \<Rightarrow> Inl e
         | Inr sent_tokens \<Rightarrow>
             (let sent_token_count = int (length sent_tokens) in
              if current_token_count + sent_token_count > mx \<and> current_sentences \<noteq> [] then
                (case flush_cached ov chunks_acc current_sentences of
                   (chunks', current_sentences', current_token_count') \<Rightarrow>
                     chunk_loop_cached word_tok mx ov chunks'
                       (current_sentences' @ [(sent, sent_token_count)])
                       (current_token_count' + sent_token_count) rest)
              else
                chunk_loop_cached word_tok mx ov chunks_acc
                  (current_sentences @ [(sent, sent_token_count)])
                  (current_token_count + sent_token_count) rest)))"

definition flush_remaining_cached :: "string list \<times> (string \<times> int) list \<times> int \<Rightarrow> string list" where
  "flush_remaining_cached st =
     (case st of (chunks_acc, current_sentences, current_token_count) \<Rightarrow>
        if current_sentences \<noteq> [] then chunks_acc @ [str_join '' '' (map fst current_sentences)]
        else chunks_acc)"

definition chunk_body_cached ::
  "sent_tokenizer \<Rightarrow> word_tokenizer \<Rightarrow> chunk_request \<Rightarrow> exn + chunk_response" where
  "chunk_body_cached sent_tok word_tok req =
     (case sent_tok (text req) of
        Inl e \<Rightarrow> Inl e
      | Inr sentences \<Rightarrow>
          if sentences = [] then Inr (whole_document req)
          else
            (case chunk_loop_cached word_tok (max_tokens req) (overlap req) [] [] 0 sentences of
               Inl e \<Rightarrow> Inl e
             | Inr st \<Rightarrow>
                 (let chunks' = flush_remaining_cached st
                  in Inr \<lparr>chunks = chunks', count = int (length chunks')\<rparr>)))"

definition chunk_try_cached ::
  "pythainlp \<Rightarrow> globals \<Rightarrow> chunk_request \<Rightarrow> (exn + chunk_response) \<times> globals" where
  "chunk_try_cached lib g req =
     (case get_sent_tokenize lib g of
        (Inl e, g1) \<Rightarrow> (Inl e, g1)
      | (Inr sent_tok, g1) \<Rightarrow>
          (case get_tokenize lib g1 of
             (Inl e, g2) \<Rightarrow> (Inl e, g2)
           | (Inr word_tok, g2) \<Rightarrow> (chunk_body_cached sent_tok word_tok req, g2)))"

definition chunk_cached :: "pythainlp \<Rightarrow> globals \<Rightarrow> chunk_request \<Rightarrow> chunk_response \<times> globals" where
  "chunk_cached lib g req =
     (case chunk_try_cached lib g req of
        (Inl e, g') \<Rightarrow> (whole_document req, g')
      | (Inr response, g') \<Rightarrow> (response, g'))"

section \<open>The sentences of each chunk\<close>

text \<open>
  The endpoint returns joined texts only. To speak about the sentences of a chunk, the
  loop is run once more on the trimmed non-blank sentences with the tokenizer's counts
  \<open>tc\<close>, keeping for every emitted chunk the pair \<open>(carried, fresh)\<close>: the sentences
  taken over from the previous chunk by the overlap scan, and the sentences appended
  since. Lemma \<open>chunk_clean_run\<close> below shows that the endpoint's chunks are exactly the
  joined texts of these groups.
\<close>

definition usable :: "string list \<Rightarrow> string list" where
  "usable sentences = filter (\<lambda>s. s \<noteq> []) (map strip sentences)"

definition token_count :: "word_tokenizer \<Rightarrow> string \<Rightarrow> int" where
  "token_count word_tok s = (case word_tok s of Inl e \<Rightarrow> 0 | Inr toks \<Rightarrow> int (length toks))"

definition tokenizes :: "word_tokenizer \<Rightarrow> string \<Rightarrow> bool" where
  "tokenizes word_tok s = (case word_tok s of Inl e \<Rightarrow> False | Inr toks \<Rightarrow> True)"

definition total_tokens :: "(string \<Rightarrow> int) \<Rightarrow> string list \<Rightarrow> int" where
  "total_tokens tc ss = sum_list (map tc ss)"

fun carry_scan :: "(string \<Rightarrow> int) \<Rightarrow> int \<Rightarrow> string list \<Rightarrow> string list \<Rightarrow> int \<Rightarrow> string list \<times> int" where
  "carry_scan tc ov [] overlap_sents overlap_count = (overlap_sents, overlap_count)"
| "carry_scan tc ov (s # rest) overlap_sents overlap_count =
     (if overlap_count + tc s > ov then (overlap_sents, overlap_count)
      else carry_scan tc ov rest (s # overlap_sents) (overlap_count + tc s))"

definition keep_overlap :: "(string \<Rightarrow> int) \<Rightarrow> int \<Rightarrow> string list \<Rightarrow> string list \<times> int" where
  "keep_overlap tc ov current_sentences =
     (if ov > 0 then carry_scan tc ov (rev current_sentences) [] 0 else ([], 0))"

fun chunk_groups ::
  "(string \<Rightarrow> int) \<Rightarrow> int \<Rightarrow> int \<Rightarrow> string list \<Rightarrow> string list \<Rightarrow> int \<Rightarrow> string list
     \<Rightarrow> (string list \<times> string list) list" where
  "chunk_groups tc mx ov carried fresh n [] =
     (if carried @ fresh \<noteq> [] then [(carried, fresh)] else [])"
| "chunk_groups tc mx ov carried fresh n (sent # rest) =
     (if n + tc sent > mx \<and> carried @ fresh \<noteq> [] then
        (carried, fresh) #
          (case keep_overlap tc ov (carried @ fresh) of
             (carried', n') \<Rightarrow> chunk_groups tc mx ov carried' [sent] (n' + tc sent) rest)
      else chunk_groups tc mx ov carried (fresh @ [sent]) (n + tc sent) rest)"

definition sentence_groups ::
  "word_tokenizer \<Rightarrow> chunk_request \<Rightarrow> string list \<Rightarrow> (string list \<times> string list) list" where
  "sentence_groups word_tok req sentences =
     chunk_groups (token_count word_tok) (max_tokens req) (overlap req) [] [] 0 (usable sentences)"

definition group_sentences :: "string list \<times> string list \<Rightarrow> string list" where
  "group_sentences grp = fst grp @ snd grp"

definition group_text :: "string list \<times> string list \<Rightarrow> string" where
  "group_text grp = str_join '' '' (group_sentences grp)"

definition group_tokens :: "word_tokenizer \<Rightarrow> string list \<times> string list \<Rightarrow> int" where
  "group_tokens word_tok grp = total_tokens (token_count word_tok) (group_sentences grp)"

text \<open>
  For the comparison with the endpoint: a cached buffer is sound when every count in it is
  what the tokenizer returns for its sentence, and \<open>forget\<close> drops the cached counts.
\<close>

definition cache_ok :: "word_tokenizer \<Rightarrow> (string \<times> int) list \<Rightarrow> bool" where
  "cache_ok word_tok cached =
     (\<forall>p\<in>set cached. tokenizes word_tok (fst p) \<and> snd p = token_count word_tok (fst p))"

definition forget :: "string list \<times> (string \<times> int) list \<times> int \<Rightarrow> string list \<times> string list \<times> int" where
  "forget st = (case st of (acc, cached, n) \<Rightarrow> (acc, map fst cached, n))"

text \<open>
  The states the module globals can be in: a cache is empty or holds what the import yields
  (\<open>get_tokenize\<close> and \<open>get_sent_tokenize\<close> are their only writers).
\<close>

definition globals_ok :: "pythainlp \<Rightarrow> globals \<Rightarrow> bool" where
  "globals_ok lib g =
     ((case g_tokenize g of None \<Rightarrow> True | Some f \<Rightarrow> import_word_tokenize lib = Inr f) \<and>
      (case g_sent_tokenize g of None \<Rightarrow> True | Some f \<Rightarrow> import_sent_tokenize lib = Inr f))"

text \<open>
  Some step of the call raises: an import, the segmenter on the document, or the tokenizer
  on one of the trimmed non-blank sentences.
\<close>

definition adapter_fails :: "pythainlp \<Rightarrow> globals \<Rightarrow> chunk_request \<Rightarrow> bool" where
  "adapter_fails lib g req =
     (case fst (get_sent_tokenize lib g) of
        Inl e \<Rightarrow> True
      | Inr sent_tok \<Rightarrow>
          (case fst (get_tokenize lib g) of
             Inl e \<Rightarrow> True
           | Inr word_tok \<Rightarrow>
               (case sent_tok (text req) of
                  Inl e \<Rightarrow> True
                | Inr sentences \<Rightarrow> (\<exists>s\<in>set (usable sentences). \<not> tokenizes word_tok s))))"

section \<open>Example collaborators\<close>

text \<open>
  A segmenter that cuts at full stops and a tokenizer that cuts at blanks and refuses a
  sentence containing \<open>#\<close>; \<open>fresh_globals\<close> is the module state at start-up
  (lines 30--34).
\<close>

fun split_on :: "char \<Rightarrow> string \<Rightarrow> string list" where
  "split_on c [] = [[]]"
| "split_on c (x # xs) =
     (if x = c then [] # split_on c xs
      else (case split_on c xs of [] \<Rightarrow> [[x]] | p # ps \<Rightarrow> (x # p) # ps))"

definition ex_sent_tok :: sent_tokenizer where
  "ex_sent_tok t = Inr (split_on (CHR ''.'') t)"

definition ex_word_tok :: word_tokenizer where
  "ex_word_tok s =
     (if CHR ''#'' \<in> set s then Inl TokenizerError
      else Inr (filter (\<lambda>w. w \<noteq> []) (split_on (CHR '' '') s)))"

definition ex_lib :: pythainlp where
  "ex_lib = \<lparr>import_word_tokenize = Inr ex_word_tok, import_sent_tokenize = Inr ex_sent_tok\<rparr>"

definition fresh_globals :: globals where
  "fresh_globals = \<lparr>g_tokenize = None, g_sent_tokenize = None\<rparr>"

definition words_of :: "char \<Rightarrow> nat \<Rightarrow> string" where
  "words_of c n = str_join '' '' (replicate n [c])"

text \<open>Requests used as examples below; each passes \<open>valid_request\<close>.\<close>

definition budget_req :: chunk_request where
  "budget_req =
     \<lparr>text = words_of (CHR ''a'') 30 @ ''. '' @ words_of (CHR ''b'') 30,
      max_tokens = 50, overlap = 50\<rparr>"

definition oversized_req :: chunk_request where
  "oversized_req =
     \<lparr>text = words_of (CHR ''a'') 5 @ ''. '' @ words_of (CHR ''b'') 60,
      max_tokens = 50, overlap = 10\<rparr>"

definition alone_req :: chunk_request where
  "alone_req =
     \<lparr>text = words_of (CHR ''a'') 5 @ ''. '' @ words_of (CHR ''b'') 60 @ ''. '' @ words_of (CHR ''c'') 5,
      max_tokens = 50, overlap = 0\<rparr>"

definition blank_req :: chunk_request where
  "blank_req = \<lparr>text = '' '', max_tokens = 300, overlap = 50\<rparr>"

definition failing_req :: chunk_request where
  "failing_req = \<lparr>text = ''a b. c #'', max_tokens = 50, overlap = 10\<rparr>"

definition ex_req :: chunk_request where
  "ex_req =
     \<lparr>text = words_of (CHR ''a'') 20 @ ''. '' @ words_of (CHR ''b'') 20 @ '' . . '' @
             words_of (CHR ''c'') 20 @ '' '',
      max_tokens = 50, overlap = 20\<rparr>"

text \<open>What \<open>ex_sent_tok\<close> returns for the documents of \<open>ex_req\<close> and \<open>alone_req\<close>.\<close>

definition ex_sentences :: "string list" where
  "ex_sentences =
     [words_of (CHR ''a'') 20, '' '' @ words_of (CHR ''b'') 20 @ '' '', '' '',
      '' '' @ words_of (CHR ''c'') 20 @ '' '']"

definition alone_sentences :: "string list" where
  "alone_sentences =
     [words_of (CHR ''a'') 5, '' '' @ words_of (CHR ''b'') 60, '' '' @ words_of (CHR ''c'') 5]"

section \<open>Trimming, token counts and the overlap scan\<close>

lemma strip_fixed: "dropWhile isspace (strip s) = strip s"
proof (cases "strip s")
  case Nil
  then show ?thesis by simp
next
  case (Cons a u)
  define t where "t = dropWhile isspace s"
  have su: "strip s = rev (dropWhile isspace (rev t))"
    by (simp add: strip_def t_def)
  have "rev (rev t) = rev (takeWhile isspace (rev t) @ dropWhile isspace (rev t))"
    by (simp only: takeWhile_dropWhile_id)
  also have "\<dots> = rev (dropWhile isspace (rev t)) @ rev (takeWhile isspace (rev t))"
    by (rule rev_append)
  finally have t: "t = strip s @ rev (takeWhile isspace (rev t))"
    by (simp only: su rev_rev_ident)
  have "t \<noteq> []"
    using t Cons by auto
  then have "\<not> isspace (hd t)"
    unfolding t_def by (rule hd_dropWhile)
  moreover have "hd t = a"
    using t Cons by (metis hd_append2 list.sel(1) list.simps(3))
  ultimately show ?thesis
    using Cons by simp
qed

lemma strip_idem: "strip (strip s) = strip s"
proof -
  have "strip (strip s) = rev (dropWhile isspace (rev (strip s)))"
    unfolding strip_def[of "strip s"] by (simp only: strip_fixed)
  also have "\<dots> = rev (dropWhile isspace (dropWhile isspace (rev (dropWhile isspace s))))"
    by (simp add: strip_def)
  also have "\<dots> = strip s"
    by (simp add: strip_def dropWhile_idem)
  finally show ?thesis .
qed

lemma usable_Cons:
  "usable (s # ss) = (if strip s = [] then usable ss else strip s # usable ss)"
  by (simp add: usable_def)

lemma usable_Nil: "usable [] = []"
  by (simp add: usable_def)

lemma usable_fixed: "s \<in> set (usable ss) \<Longrightarrow> s \<noteq> [] \<and> strip s = s"
  by (auto simp: usable_def strip_idem)

lemma usable_idem: "usable (usable ss) = usable ss"
  by (induction ss) (simp_all add: usable_Nil usable_Cons strip_idem)

lemma token_count_nonneg: "0 \<le> token_count word_tok s"
  by (simp add: token_count_def split: sum.splits)

lemma tokenizes_Inr:
  "tokenizes word_tok s \<Longrightarrow> \<exists>toks. word_tok s = Inr toks \<and> token_count word_tok s = int (length toks)"
  by (cases "word_tok s") (simp_all add: tokenizes_def token_count_def)

lemma not_tokenizes_Inl: "\<not> tokenizes word_tok s \<Longrightarrow> \<exists>e. word_tok s = Inl e"
  by (cases "word_tok s") (simp_all add: tokenizes_def)

lemma overlap_scan_carry:
  "\<forall>s\<in>set xs. tokenizes word_tok s \<Longrightarrow>
   overlap_scan word_tok ov xs acc k = Inr (carry_scan (token_count word_tok) ov xs acc k)"
proof (induction xs arbitrary: acc k)
  case Nil
  then show ?case by simp
next
  case (Cons x xs)
  from Cons.prems obtain toks where "word_tok x = Inr toks"
    and "token_count word_tok x = int (length toks)"
    using tokenizes_Inr by fastforce
  moreover have "\<forall>s\<in>set xs. tokenizes word_tok s"
    using Cons.prems by simp
  ultimately show ?case
    using Cons.IH by simp
qed

lemma carry_scan_props:
  "carry_scan tc ov xs acc k = (os, oc) \<Longrightarrow> k = total_tokens tc acc \<Longrightarrow> k \<le> ov \<Longrightarrow>
   oc = total_tokens tc os \<and> oc \<le> ov \<and> suffix os (rev xs @ acc)"
proof (induction xs arbitrary: acc k)
  case Nil
  then show ?case
    by auto
next
  case (Cons x xs)
  show ?case
  proof (cases "k + tc x > ov")
    case True
    with Cons.prems(1) have "os = acc" and "oc = k"
      by auto
    with Cons.prems(2,3) show ?thesis
      by (simp add: suffix_def)
  next
    case False
    with Cons.prems have "carry_scan tc ov xs (x # acc) (k + tc x) = (os, oc)"
      by simp
    moreover have "k + tc x = total_tokens tc (x # acc)"
      using Cons.prems by (simp add: total_tokens_def)
    ultimately have "oc = total_tokens tc os \<and> oc \<le> ov \<and> suffix os (rev xs @ x # acc)"
      using False Cons.IH by simp
    then show ?thesis by simp
  qed
qed

lemma keep_overlap_total:
  assumes "keep_overlap tc ov buf = (os, oc)"
  shows "oc = total_tokens tc os"
proof (cases "ov > 0")
  case True
  then have "carry_scan tc ov (rev buf) [] 0 = (os, oc)"
    using assms by (simp add: keep_overlap_def)
  from carry_scan_props[OF this] True show ?thesis
    by (simp add: total_tokens_def)
next
  case False
  then show ?thesis
    using assms by (simp add: keep_overlap_def total_tokens_def)
qed

lemma keep_overlap_suffix:
  assumes "keep_overlap tc ov buf = (os, oc)"
  shows "suffix os buf"
proof (cases "ov > 0")
  case True
  then have "carry_scan tc ov (rev buf) [] 0 = (os, oc)"
    using assms by (simp add: keep_overlap_def)
  from carry_scan_props[OF this] True show ?thesis
    by (simp add: total_tokens_def)
next
  case False
  then show ?thesis
    using assms by (simp add: keep_overlap_def)
qed

lemma keep_overlap_bound:
  assumes "keep_overlap tc ov buf = (os, oc)" and "0 \<le> ov"
  shows "oc \<le> ov"
proof (cases "ov > 0")
  case True
  then have "carry_scan tc ov (rev buf) [] 0 = (os, oc)"
    using assms by (simp add: keep_overlap_def)
  from carry_scan_props[OF this] True show ?thesis
    by (simp add: total_tokens_def)
next
  case False
  then show ?thesis
    using assms by (simp add: keep_overlap_def)
qed

lemma keep_overlap_none: "keep_overlap tc ov buf = (os, oc) \<Longrightarrow> ov \<le> 0 \<Longrightarrow> os = []"
  by (simp add: keep_overlap_def)

lemma keep_overlap_subset: "keep_overlap tc ov buf = (os, oc) \<Longrightarrow> set os \<subseteq> set buf"
  using keep_overlap_suffix set_mono_suffix by blast

lemma flush_keep_overlap:
  assumes "\<forall>s\<in>set cur. tokenizes word_tok s"
  shows "flush word_tok ov acc cur =
    Inr (acc @ [str_join '' '' cur], fst (keep_overlap (token_count word_tok) ov cur),
         snd (keep_overlap (token_count word_tok) ov cur))"
proof -
  have "overlap_scan word_tok ov (rev cur) [] 0 =
      Inr (carry_scan (token_count word_tok) ov (rev cur) [] 0)"
    using assms by (intro overlap_scan_carry) simp
  then show ?thesis
    by (simp add: flush_def keep_overlap_def split: prod.splits)
qed

section \<open>The loop and the groups of sentences\<close>

lemma group_text_simp: "group_text (c, f) = str_join '' '' (c @ f)"
  by (simp add: group_text_def group_sentences_def)

lemma chunk_loop_skip:
  "strip sent0 = [] \<Longrightarrow>
   chunk_loop word_tok mx ov acc cur n (sent0 # rest) = chunk_loop word_tok mx ov acc cur n rest"
  by simp

lemma chunk_loop_raise:
  "strip sent0 \<noteq> [] \<Longrightarrow> word_tok (strip sent0) = Inl e \<Longrightarrow>
   chunk_loop word_tok mx ov acc cur n (sent0 # rest) = Inl e"
  by simp

lemma chunk_loop_flush:
  "strip sent0 \<noteq> [] \<Longrightarrow> word_tok (strip sent0) = Inr toks \<Longrightarrow>
   n + int (length toks) > mx \<Longrightarrow> cur \<noteq> [] \<Longrightarrow> flush word_tok ov acc cur = Inr (acc', cur', n') \<Longrightarrow>
   chunk_loop word_tok mx ov acc cur n (sent0 # rest) =
   chunk_loop word_tok mx ov acc' (cur' @ [strip sent0]) (n' + int (length toks)) rest"
  by simp

lemma chunk_loop_append:
  "strip sent0 \<noteq> [] \<Longrightarrow> word_tok (strip sent0) = Inr toks \<Longrightarrow>
   \<not> (n + int (length toks) > mx \<and> cur \<noteq> []) \<Longrightarrow>
   chunk_loop word_tok mx ov acc cur n (sent0 # rest) =
   chunk_loop word_tok mx ov acc (cur @ [strip sent0]) (n + int (length toks)) rest"
  by (auto simp: Let_def)

lemma chunk_groups_flush:
  "n + tc sent > mx \<Longrightarrow> carried @ fresh \<noteq> [] \<Longrightarrow> keep_overlap tc ov (carried @ fresh) = (os, oc) \<Longrightarrow>
   chunk_groups tc mx ov carried fresh n (sent # rest) =
   (carried, fresh) # chunk_groups tc mx ov os [sent] (oc + tc sent) rest"
  by simp

lemma chunk_groups_append:
  "\<not> (n + tc sent > mx \<and> carried @ fresh \<noteq> []) \<Longrightarrow>
   chunk_groups tc mx ov carried fresh n (sent # rest) =
   chunk_groups tc mx ov carried (fresh @ [sent]) (n + tc sent) rest"
  by auto

declare chunk_loop.simps(2) [simp del]
declare chunk_groups.simps(2) [simp del]

lemma chunk_loop_groups:
  assumes "\<forall>s\<in>set (carried @ fresh). tokenizes word_tok s"
    and "\<forall>s\<in>set (usable rest). tokenizes word_tok s"
  shows "\<exists>st. chunk_loop word_tok mx ov acc (carried @ fresh) n rest = Inr st \<and>
    flush_remaining st =
      acc @ map group_text (chunk_groups (token_count word_tok) mx ov carried fresh n (usable rest))"
  using assms
proof (induction rest arbitrary: acc carried fresh n)
  case Nil
  then show ?case
    by (simp add: usable_Nil flush_remaining_def group_text_simp)
next
  case (Cons sent0 rest)
  show ?case
  proof (cases "strip sent0 = []")
    case True
    then show ?thesis
      using Cons.IH[OF Cons.prems(1)] Cons.prems(2) by (simp add: usable_Cons chunk_loop_skip)
  next
    case False
    define sent where "sent = strip sent0"
    have us: "usable (sent0 # rest) = sent # usable rest"
      using False by (simp add: usable_Cons sent_def)
    have rest_ok: "\<forall>s\<in>set (usable rest). tokenizes word_tok s"
      using Cons.prems(2) us by simp
    have "tokenizes word_tok sent"
      using Cons.prems(2) us by simp
    then obtain toks where toks: "word_tok sent = Inr toks"
      and tc: "token_count word_tok sent = int (length toks)"
      using tokenizes_Inr by blast
    show ?thesis
    proof (cases "n + int (length toks) > mx \<and> carried @ fresh \<noteq> []")
      case True
      obtain os oc where ko: "keep_overlap (token_count word_tok) ov (carried @ fresh) = (os, oc)"
        by (cases "keep_overlap (token_count word_tok) ov (carried @ fresh)")
      have fl: "flush word_tok ov acc (carried @ fresh) =
          Inr (acc @ [str_join '' '' (carried @ fresh)], os, oc)"
        using flush_keep_overlap[OF Cons.prems(1), of ov acc] ko by simp
      have "set os \<subseteq> set (carried @ fresh)"
        using ko by (rule keep_overlap_subset)
      then have "\<forall>s\<in>set (os @ [sent]). tokenizes word_tok s"
        using Cons.prems(1) \<open>tokenizes word_tok sent\<close> by auto
      from Cons.IH[OF this rest_ok, of "acc @ [str_join '' '' (carried @ fresh)]" "oc + int (length toks)"]
      show ?thesis
        using True False toks tc fl ko
        by (simp add: us sent_def chunk_loop_flush chunk_groups_flush group_text_simp)
    next
      case no_flush: False
      have "\<forall>s\<in>set (carried @ (fresh @ [sent])). tokenizes word_tok s"
        using Cons.prems(1) \<open>tokenizes word_tok sent\<close> by auto
      from Cons.IH[OF this rest_ok, of acc "n + int (length toks)"]
      show ?thesis
        using no_flush False toks tc
        by (simp add: us sent_def chunk_loop_append chunk_groups_append)
    qed
  qed
qed

lemma chunk_loop_fails:
  assumes "\<forall>s\<in>set cur. tokenizes word_tok s"
    and "\<exists>s\<in>set (usable rest). \<not> tokenizes word_tok s"
  shows "\<exists>e. chunk_loop word_tok mx ov acc cur n rest = Inl e"
  using assms
proof (induction rest arbitrary: acc cur n)
  case Nil
  then show ?case
    by (simp add: usable_Nil)
next
  case (Cons sent0 rest)
  show ?case
  proof (cases "strip sent0 = []")
    case True
    then show ?thesis
      using Cons.IH[OF Cons.prems(1)] Cons.prems(2) by (simp add: usable_Cons chunk_loop_skip)
  next
    case False
    define sent where "sent = strip sent0"
    have us: "usable (sent0 # rest) = sent # usable rest"
      using False by (simp add: usable_Cons sent_def)
    show ?thesis
    proof (cases "tokenizes word_tok sent")
      case bad: False
      then obtain e where "word_tok sent = Inl e"
        using not_tokenizes_Inl by blast
      then show ?thesis
        using False by (simp add: sent_def chunk_loop_raise)
    next
      case True
      then obtain toks where toks: "word_tok sent = Inr toks"
        using tokenizes_Inr by blast
      have rest_bad: "\<exists>s\<in>set (usable rest). \<not> tokenizes word_tok s"
        using Cons.prems(2) us True by auto
      show ?thesis
      proof (cases "n + int (length toks) > mx \<and> cur \<noteq> []")
        case flush: True
        obtain os oc where ko: "keep_overlap (token_count word_tok) ov cur = (os, oc)"
          by (cases "keep_overlap (token_count word_tok) ov cur")
        have fl: "flush word_tok ov acc cur = Inr (acc @ [str_join '' '' cur], os, oc)"
          using flush_keep_overlap[OF Cons.prems(1), of ov acc] ko by simp
        have "set os \<subseteq> set cur"
          using ko by (rule keep_overlap_subset)
        then have "\<forall>s\<in>set (os @ [sent]). tokenizes word_tok s"
          using Cons.prems(1) True by auto
        from Cons.IH[OF this rest_bad, of "acc @ [str_join '' '' cur]" "oc + int (length toks)"]
        show ?thesis
          using flush False toks fl
          by (simp add: sent_def chunk_loop_flush)
      next
        case no_flush: False
        have "\<forall>s\<in>set (cur @ [sent]). tokenizes word_tok s"
          using Cons.prems(1) True by auto
        from Cons.IH[OF this rest_bad, of acc "n + int (length toks)"]
        show ?thesis
          using no_flush False toks
          by (simp add: sent_def chunk_loop_append)
      qed
    qed
  qed
qed

lemma chunk_loop_usable:
  "chunk_loop word_tok mx ov acc cur n (usable sentences) =
   chunk_loop word_tok mx ov acc cur n sentences"
proof (induction sentences arbitrary: acc cur n)
  case Nil
  then show ?case
    by (simp add: usable_Nil)
next
  case (Cons sent0 rest)
  show ?case
  proof (cases "strip sent0 = []")
    case True
    then show ?thesis
      using Cons.IH by (simp add: usable_Cons chunk_loop_skip)
  next
    case False
    then have us: "usable (sent0 # rest) = strip sent0 # usable rest"
      by (simp add: usable_Cons)
    show ?thesis
      unfolding us chunk_loop.simps(2)[of _ _ _ _ _ _ "strip sent0"] chunk_loop.simps(2)[of _ _ _ _ _ _ sent0]
      by (simp add: strip_idem Cons.IH Let_def split: sum.splits prod.splits)
  qed
qed

section \<open>Properties of the groups\<close>

lemma total_tokens_append: "total_tokens tc (xs @ ys) = total_tokens tc xs + total_tokens tc ys"
  by (simp add: total_tokens_def)

lemma total_tokens_single: "total_tokens tc [x] = tc x"
  by (simp add: total_tokens_def)

lemma total_tokens_nonneg: "\<forall>s. 0 \<le> tc s \<Longrightarrow> 0 \<le> total_tokens tc xs"
  unfolding total_tokens_def by (induction xs) simp_all

lemma total_tokens_member:
  assumes "\<forall>s. 0 \<le> tc s" and "x \<in> set xs"
  shows "tc x \<le> total_tokens tc xs"
proof -
  obtain ys zs where "xs = ys @ x # zs"
    using assms(2) by (auto simp: in_set_conv_decomp)
  then have "total_tokens tc xs = total_tokens tc ys + tc x + total_tokens tc zs"
    by (simp add: total_tokens_def)
  then show ?thesis
    using total_tokens_nonneg[OF assms(1), of ys] total_tokens_nonneg[OF assms(1), of zs]
    by simp
qed

text \<open>Coverage: the fresh parts of the groups are the sentences, in order.\<close>

lemma chunk_groups_fresh:
  "concat (map snd (chunk_groups tc mx ov carried fresh n rest)) = fresh @ rest"
proof (induction rest arbitrary: carried fresh n)
  case Nil
  then show ?case by simp
next
  case (Cons sent rest)
  show ?case
  proof (cases "n + tc sent > mx \<and> carried @ fresh \<noteq> []")
    case True
    obtain os oc where ko: "keep_overlap tc ov (carried @ fresh) = (os, oc)"
      by (cases "keep_overlap tc ov (carried @ fresh)")
    show ?thesis
      using True ko Cons.IH[of os "[sent]" "oc + tc sent"]
      by (simp add: chunk_groups_flush)
  next
    case False
    then show ?thesis
      using Cons.IH[of carried "fresh @ [sent]" "n + tc sent"]
      by (simp add: chunk_groups_append)
  qed
qed

text \<open>Every group but possibly the first has a fresh sentence; none is empty.\<close>

lemma chunk_groups_nonempty:
  "grp \<in> set (chunk_groups tc mx ov carried fresh n rest) \<Longrightarrow> fst grp @ snd grp \<noteq> []"
proof (induction rest arbitrary: carried fresh n)
  case Nil
  then show ?case by (auto split: if_splits)
next
  case (Cons sent rest)
  show ?case
  proof (cases "n + tc sent > mx \<and> carried @ fresh \<noteq> []")
    case True
    obtain os oc where ko: "keep_overlap tc ov (carried @ fresh) = (os, oc)"
      by (cases "keep_overlap tc ov (carried @ fresh)")
    show ?thesis
      using True ko Cons.IH[of os "[sent]" "oc + tc sent"] Cons.prems
      by (auto simp: chunk_groups_flush)
  next
    case False
    then show ?thesis
      using Cons.IH[of carried "fresh @ [sent]" "n + tc sent"] Cons.prems
      by (simp add: chunk_groups_append)
  qed
qed

lemma chunk_groups_exist:
  "carried @ fresh @ rest \<noteq> [] \<Longrightarrow> chunk_groups tc mx ov carried fresh n rest \<noteq> []"
proof (induction rest arbitrary: carried fresh n)
  case Nil
  then show ?case by simp
next
  case (Cons sent rest)
  show ?case
  proof (cases "n + tc sent > mx \<and> carried @ fresh \<noteq> []")
    case True
    obtain os oc where ko: "keep_overlap tc ov (carried @ fresh) = (os, oc)"
      by (cases "keep_overlap tc ov (carried @ fresh)")
    show ?thesis
      using True ko by (simp add: chunk_groups_flush)
  next
    case False
    then show ?thesis
      using Cons.IH[of carried "fresh @ [sent]" "n + tc sent"]
      by (simp add: chunk_groups_append)
  qed
qed

text \<open>The sentences of a group come from the buffer or from the input.\<close>

lemma chunk_groups_members:
  "grp \<in> set (chunk_groups tc mx ov carried fresh n rest) \<Longrightarrow>
   set (fst grp @ snd grp) \<subseteq> set carried \<union> set fresh \<union> set rest"
proof (induction rest arbitrary: carried fresh n)
  case Nil
  then show ?case by (auto split: if_splits)
next
  case (Cons sent rest)
  show ?case
  proof (cases "n + tc sent > mx \<and> carried @ fresh \<noteq> []")
    case True
    obtain os oc where ko: "keep_overlap tc ov (carried @ fresh) = (os, oc)"
      by (cases "keep_overlap tc ov (carried @ fresh)")
    have sub: "set os \<subseteq> set carried \<union> set fresh"
      using keep_overlap_subset[OF ko] by simp
    from Cons.prems True ko
    have "grp = (carried, fresh) \<or> grp \<in> set (chunk_groups tc mx ov os [sent] (oc + tc sent) rest)"
      by (simp add: chunk_groups_flush)
    then show ?thesis
    proof
      assume "grp = (carried, fresh)"
      then show ?thesis by auto
    next
      assume "grp \<in> set (chunk_groups tc mx ov os [sent] (oc + tc sent) rest)"
      from Cons.IH[OF this] sub show ?thesis by auto
    qed
  next
    case False
    then have "grp \<in> set (chunk_groups tc mx ov carried (fresh @ [sent]) (n + tc sent) rest)"
      using Cons.prems by (simp add: chunk_groups_append)
    from Cons.IH[OF this] show ?thesis by auto
  qed
qed

text \<open>The budget, when a sentence and the overlap together fit.\<close>

lemma chunk_groups_budget:
  assumes "0 \<le> ov"
    and "\<forall>s\<in>set rest. tc s + ov \<le> mx"
    and "n = total_tokens tc (carried @ fresh)"
    and "carried @ fresh \<noteq> [] \<longrightarrow> n \<le> mx"
    and "grp \<in> set (chunk_groups tc mx ov carried fresh n rest)"
  shows "total_tokens tc (fst grp @ snd grp) \<le> mx"
  using assms(2-)
proof (induction rest arbitrary: carried fresh n)
  case Nil
  then show ?case by (auto split: if_splits)
next
  case (Cons sent rest)
  have sent: "tc sent + ov \<le> mx" and rest: "\<forall>s\<in>set rest. tc s + ov \<le> mx"
    using Cons.prems(1) by simp_all
  show ?case
  proof (cases "n + tc sent > mx \<and> carried @ fresh \<noteq> []")
    case True
    obtain os oc where ko: "keep_overlap tc ov (carried @ fresh) = (os, oc)"
      by (cases "keep_overlap tc ov (carried @ fresh)")
    have oc: "oc = total_tokens tc os" and "oc \<le> ov"
      using keep_overlap_total[OF ko] keep_overlap_bound[OF ko assms(1)] by simp_all
    from Cons.prems(4) True ko
    have "grp = (carried, fresh) \<or> grp \<in> set (chunk_groups tc mx ov os [sent] (oc + tc sent) rest)"
      by (simp add: chunk_groups_flush)
    then show ?thesis
    proof
      assume "grp = (carried, fresh)"
      then show ?thesis
        using Cons.prems(2,3) True by simp
    next
      assume g: "grp \<in> set (chunk_groups tc mx ov os [sent] (oc + tc sent) rest)"
      have "oc + tc sent = total_tokens tc (os @ [sent])"
        using oc by (simp add: total_tokens_append total_tokens_single)
      moreover have "os @ [sent] \<noteq> [] \<longrightarrow> oc + tc sent \<le> mx"
        using \<open>oc \<le> ov\<close> sent by simp
      ultimately show ?thesis
        using Cons.IH[OF rest _ _ g] by blast
    qed
  next
    case False
    then have g: "grp \<in> set (chunk_groups tc mx ov carried (fresh @ [sent]) (n + tc sent) rest)"
      using Cons.prems(4) by (simp add: chunk_groups_append)
    have tot: "n + tc sent = total_tokens tc (carried @ fresh @ [sent])"
      using Cons.prems(2) by (simp add: total_tokens_append total_tokens_single)
    have "n + tc sent \<le> mx"
    proof (cases "carried @ fresh = []")
      case True
      then have "n = 0"
        using Cons.prems(2) by (simp add: total_tokens_def)
      then show ?thesis
        using sent assms(1) by simp
    next
      case nonempty: False
      then show ?thesis
        using False by simp
    qed
    then show ?thesis
      using Cons.IH[OF rest _ _ g, of ] tot by simp
  qed
qed

lemma chunk_groups_hd:
  "chunk_groups tc mx ov carried fresh n rest \<noteq> [] \<Longrightarrow>
   fst (hd (chunk_groups tc mx ov carried fresh n rest)) = carried"
proof (induction rest arbitrary: fresh n)
  case Nil
  then show ?case by (auto split: if_splits)
next
  case (Cons sent rest)
  show ?case
  proof (cases "n + tc sent > mx \<and> carried @ fresh \<noteq> []")
    case True
    obtain os oc where ko: "keep_overlap tc ov (carried @ fresh) = (os, oc)"
      by (cases "keep_overlap tc ov (carried @ fresh)")
    show ?thesis
      using True ko by (simp add: chunk_groups_flush)
  next
    case False
    then show ?thesis
      using Cons.IH[of "fresh @ [sent]" "n + tc sent"] Cons.prems
      by (simp add: chunk_groups_append)
  qed
qed

text \<open>Consecutive groups: what the later one carries is a bounded tail of the earlier one.\<close>

lemma chunk_groups_linked:
  assumes "Suc i < length (chunk_groups tc mx ov carried fresh n rest)"
  shows "suffix (fst (chunk_groups tc mx ov carried fresh n rest ! Suc i))
           (group_sentences (chunk_groups tc mx ov carried fresh n rest ! i)) \<and>
         (0 \<le> ov \<longrightarrow>
            total_tokens tc (fst (chunk_groups tc mx ov carried fresh n rest ! Suc i)) \<le> ov) \<and>
         (ov \<le> 0 \<longrightarrow> fst (chunk_groups tc mx ov carried fresh n rest ! Suc i) = [])"
  using assms
proof (induction rest arbitrary: carried fresh n i)
  case Nil
  then show ?case by (simp split: if_splits)
next
  case (Cons sent rest)
  show ?case
  proof (cases "n + tc sent > mx \<and> carried @ fresh \<noteq> []")
    case True
    obtain os oc where ko: "keep_overlap tc ov (carried @ fresh) = (os, oc)"
      by (cases "keep_overlap tc ov (carried @ fresh)")
    define G where "G = chunk_groups tc mx ov os [sent] (oc + tc sent) rest"
    have eq: "chunk_groups tc mx ov carried fresh n (sent # rest) = (carried, fresh) # G"
      using True ko by (simp add: chunk_groups_flush G_def)
    show ?thesis
    proof (cases i)
      case 0
      have "G \<noteq> []"
        unfolding G_def by (rule chunk_groups_exist) simp
      then have "fst (G ! 0) = os"
        using chunk_groups_hd[of tc mx ov os "[sent]" "oc + tc sent" rest]
        by (simp add: G_def hd_conv_nth)
      moreover have "suffix os (carried @ fresh)"
        using ko by (rule keep_overlap_suffix)
      moreover have "0 \<le> ov \<longrightarrow> total_tokens tc os \<le> ov"
        using keep_overlap_total[OF ko] keep_overlap_bound[OF ko] by simp
      moreover have "ov \<le> 0 \<longrightarrow> os = []"
        using keep_overlap_none[OF ko] by simp
      ultimately show ?thesis
        unfolding eq 0 by (simp add: group_sentences_def)
    next
      case (Suc j)
      then have "Suc j < length G"
        using Cons.prems eq by simp
      from Cons.IH[of j os "[sent]" "oc + tc sent", folded G_def, OF this]
      show ?thesis
        unfolding eq Suc by simp
    qed
  next
    case False
    then have eq: "chunk_groups tc mx ov carried fresh n (sent # rest) =
        chunk_groups tc mx ov carried (fresh @ [sent]) (n + tc sent) rest"
      by (simp add: chunk_groups_append)
    show ?thesis
      using Cons.IH[of i carried "fresh @ [sent]" "n + tc sent"] Cons.prems
      unfolding eq by simp
  qed
qed

lemma chunk_groups_no_overlap:
  "ov \<le> 0 \<Longrightarrow> carried = [] \<Longrightarrow> grp \<in> set (chunk_groups tc mx ov carried fresh n rest) \<Longrightarrow>
   fst grp = []"
proof (induction rest arbitrary: carried fresh n)
  case Nil
  then show ?case by (auto split: if_splits)
next
  case (Cons sent rest)
  show ?case
  proof (cases "n + tc sent > mx \<and> carried @ fresh \<noteq> []")
    case True
    obtain os oc where ko: "keep_overlap tc ov (carried @ fresh) = (os, oc)"
      by (cases "keep_overlap tc ov (carried @ fresh)")
    have "os = []"
      using keep_overlap_none[OF ko Cons.prems(1)] .
    from Cons.prems(3) True ko
    have "grp = (carried, fresh) \<or> grp \<in> set (chunk_groups tc mx ov os [sent] (oc + tc sent) rest)"
      by (simp add: chunk_groups_flush)
    then show ?thesis
      using Cons.IH[OF Cons.prems(1) \<open>os = []\<close>] Cons.prems(2) by auto
  next
    case False
    then have "grp \<in> set (chunk_groups tc mx ov carried (fresh @ [sent]) (n + tc sent) rest)"
      using Cons.prems(3) by (simp add: chunk_groups_append)
    from Cons.IH[OF Cons.prems(1,2) this] show ?thesis .
  qed
qed

text \<open>A sentence above the budget is the only fresh sentence of its group.\<close>

lemma chunk_groups_oversized:
  assumes "\<forall>s. 0 \<le> tc s"
    and "n = total_tokens tc (carried @ fresh)"
    and "\<forall>s\<in>set fresh. mx < tc s \<longrightarrow> fresh = [s]"
    and "grp \<in> set (chunk_groups tc mx ov carried fresh n rest)"
    and "s \<in> set (snd grp)" and "mx < tc s"
  shows "snd grp = [s]"
  using assms(2-4)
proof (induction rest arbitrary: carried fresh n)
  case Nil
  then show ?case
    using assms(5,6) by (auto split: if_splits)
next
  case (Cons sent rest)
  show ?case
  proof (cases "n + tc sent > mx \<and> carried @ fresh \<noteq> []")
    case True
    obtain os oc where ko: "keep_overlap tc ov (carried @ fresh) = (os, oc)"
      by (cases "keep_overlap tc ov (carried @ fresh)")
    from Cons.prems(3) True ko
    have "grp = (carried, fresh) \<or> grp \<in> set (chunk_groups tc mx ov os [sent] (oc + tc sent) rest)"
      by (simp add: chunk_groups_flush)
    then show ?thesis
    proof
      assume "grp = (carried, fresh)"
      then show ?thesis
        using Cons.prems(2) assms(5,6) by auto
    next
      assume g: "grp \<in> set (chunk_groups tc mx ov os [sent] (oc + tc sent) rest)"
      have "oc + tc sent = total_tokens tc (os @ [sent])"
        using keep_overlap_total[OF ko] by (simp add: total_tokens_append total_tokens_single)
      moreover have "\<forall>s\<in>set [sent]. mx < tc s \<longrightarrow> [sent] = [s]"
        by simp
      ultimately show ?thesis
        using Cons.IH[OF _ _ g] by blast
    qed
  next
    case False
    then have g: "grp \<in> set (chunk_groups tc mx ov carried (fresh @ [sent]) (n + tc sent) rest)"
      using Cons.prems(3) by (simp add: chunk_groups_append)
    have tot: "n + tc sent = total_tokens tc (carried @ fresh @ [sent])"
      using Cons.prems(1) by (simp add: total_tokens_append total_tokens_single)
    have "\<forall>s\<in>set (fresh @ [sent]). mx < tc s \<longrightarrow> fresh @ [sent] = [s]"
    proof (cases "carried @ fresh = []")
      case True
      then show ?thesis by simp
    next
      case nonempty: False
      then have le: "n + tc sent \<le> mx"
        using False by simp
      have "tc s \<le> mx" if "s \<in> set (fresh @ [sent])" for s
      proof -
        have "s \<in> set (carried @ fresh @ [sent])"
          using that by auto
        from total_tokens_member[OF assms(1) this] tot le show ?thesis
          by simp
      qed
      then show ?thesis
        by fastforce
    qed
    with Cons.IH[OF _ _ g] tot show ?thesis
      by simp
  qed
qed

section \<open>The cached variant against the endpoint\<close>

lemma overlap_scan_cached_eq:
  "cache_ok word_tok xs \<Longrightarrow>
   overlap_scan word_tok ov (map fst xs) (map fst acc) k =
   Inr (map fst (fst (overlap_scan_cached ov xs acc k)), snd (overlap_scan_cached ov xs acc k))"
proof (induction xs arbitrary: acc k)
  case Nil
  then show ?case by simp
next
  case (Cons p xs)
  obtain s c where p: "p = (s, c)"
    by (cases p)
  from Cons.prems p obtain toks where toks: "word_tok s = Inr toks" and c: "c = int (length toks)"
    using tokenizes_Inr[of word_tok s] by (auto simp: cache_ok_def)
  have "cache_ok word_tok xs"
    using Cons.prems by (simp add: cache_ok_def)
  from Cons.IH[OF this, of "p # acc" "k + c"] show ?case
    using toks c p by (simp add: Let_def)
qed

lemma overlap_scan_cached_subset:
  "set (fst (overlap_scan_cached ov xs acc k)) \<subseteq> set xs \<union> set acc"
proof (induction xs arbitrary: acc k)
  case Nil
  then show ?case by simp
next
  case (Cons p xs)
  obtain s c where p: "p = (s, c)"
    by (cases p)
  show ?case
    using Cons.IH[of "p # acc" "k + c"] p by auto
qed

lemma flush_cached_eq:
  assumes "cache_ok word_tok cached"
  shows "flush word_tok ov acc (map fst cached) = Inr (forget (flush_cached ov acc cached))"
proof (cases "ov > 0")
  case True
  have "cache_ok word_tok (rev cached)"
    using assms by (simp add: cache_ok_def)
  from overlap_scan_cached_eq[OF this, of ov "[]" 0] True show ?thesis
    by (simp add: flush_def flush_cached_def forget_def rev_map split: prod.splits)
next
  case False
  then show ?thesis
    by (simp add: flush_def flush_cached_def forget_def)
qed

lemma flush_cached_ok:
  assumes "cache_ok word_tok cached" and "flush_cached ov acc cached = (acc', cached', n')"
  shows "cache_ok word_tok cached'"
proof (cases "ov > 0")
  case True
  then have "cached' = fst (overlap_scan_cached ov (rev cached) [] 0)"
    using assms(2) by (auto simp: flush_cached_def split: prod.splits)
  then have "set cached' \<subseteq> set cached"
    using overlap_scan_cached_subset[of ov "rev cached" "[]" 0] by simp
  then show ?thesis
    using assms(1) by (auto simp: cache_ok_def)
next
  case False
  then show ?thesis
    using assms(2) by (auto simp: flush_cached_def cache_ok_def)
qed

lemma chunk_loop_cached_eq:
  "cache_ok word_tok cached \<Longrightarrow>
   chunk_loop word_tok mx ov acc (map fst cached) n rest =
   map_sum id forget (chunk_loop_cached word_tok mx ov acc cached n rest)"
proof (induction rest arbitrary: acc cached n)
  case Nil
  then show ?case by (simp add: forget_def)
next
  case (Cons sent0 rest)
  show ?case
  proof (cases "strip sent0 = []")
    case True
    then show ?thesis
      using Cons.IH[OF Cons.prems] by (simp add: chunk_loop_skip)
  next
    case False
    show ?thesis
    proof (cases "word_tok (strip sent0)")
      case (Inl e)
      then show ?thesis
        using False by (simp add: chunk_loop_raise)
    next
      case (Inr toks)
      have new: "tokenizes word_tok (strip sent0)"
        "token_count word_tok (strip sent0) = int (length toks)"
        using Inr by (simp_all add: tokenizes_def token_count_def)
      show ?thesis
      proof (cases "n + int (length toks) > mx \<and> map fst cached \<noteq> []")
        case True
        obtain acc' cached' n' where fc: "flush_cached ov acc cached = (acc', cached', n')"
          by (cases "flush_cached ov acc cached")
        have fl: "flush word_tok ov acc (map fst cached) = Inr (acc', map fst cached', n')"
          using flush_cached_eq[OF Cons.prems, of ov acc] fc by (simp add: forget_def)
        have "cache_ok word_tok cached'"
          using Cons.prems fc by (rule flush_cached_ok)
        then have "cache_ok word_tok (cached' @ [(strip sent0, int (length toks))])"
          using new by (simp add: cache_ok_def)
        from Cons.IH[OF this, of acc' "n' + int (length toks)"] show ?thesis
          using True False Inr fl fc
          by (simp add: chunk_loop_flush[OF False Inr _ _ fl] Let_def)
      next
        case no_flush: False
        have ok: "cache_ok word_tok (cached @ [(strip sent0, int (length toks))])"
          using Cons.prems new by (simp add: cache_ok_def)
        have step: "chunk_loop word_tok mx ov acc (map fst cached) n (sent0 # rest) =
            chunk_loop word_tok mx ov acc (map fst cached @ [strip sent0]) (n + int (length toks)) rest"
          using False Inr no_flush by (rule chunk_loop_append)
        from Cons.IH[OF ok, of acc "n + int (length toks)"] show ?thesis
          using no_flush False Inr
          by (auto simp: step Let_def)
      qed
    qed
  qed
qed

lemma flush_remaining_cached_eq: "flush_remaining (forget st) = flush_remaining_cached st"
  by (cases st) (simp add: flush_remaining_def flush_remaining_cached_def forget_def)

lemma chunk_body_cached_eq: "chunk_body_cached sent_tok word_tok req = chunk_body sent_tok word_tok req"
proof -
  have "cache_ok word_tok []"
    by (simp add: cache_ok_def)
  from chunk_loop_cached_eq[OF this, of "max_tokens req" "overlap req" "[]" 0]
  have loop: "chunk_loop word_tok (max_tokens req) (overlap req) [] [] 0 sentences =
      map_sum id forget (chunk_loop_cached word_tok (max_tokens req) (overlap req) [] [] 0 sentences)"
    for sentences
    by simp
  show ?thesis
    unfolding chunk_body_cached_def chunk_body_def loop
    by (auto simp: flush_remaining_cached_eq[symmetric] Let_def split: sum.splits)
qed

section \<open>The endpoint: clean runs, failures and the module globals\<close>

lemma get_tokenize_after_sent:
  "fst (get_tokenize lib (snd (get_sent_tokenize lib g))) = fst (get_tokenize lib g)"
  by (simp add: get_tokenize_def get_sent_tokenize_def split: option.splits sum.splits)

lemma chunk_try_fst:
  "fst (chunk_try lib g req) =
     (case fst (get_sent_tokenize lib g) of
        Inl e \<Rightarrow> Inl e
      | Inr sent_tok \<Rightarrow>
          (case fst (get_tokenize lib g) of
             Inl e \<Rightarrow> Inl e
           | Inr word_tok \<Rightarrow> chunk_body sent_tok word_tok req))"
proof -
  obtain r1 g1 where a: "get_sent_tokenize lib g = (r1, g1)"
    by (cases "get_sent_tokenize lib g")
  obtain r2 g2 where b: "get_tokenize lib g1 = (r2, g2)"
    by (cases "get_tokenize lib g1")
  have "fst (get_tokenize lib g) = r2"
    using get_tokenize_after_sent[of lib g] a b by simp
  then show ?thesis
    using a b by (simp add: chunk_try_def split: sum.splits)
qed

lemma chunk_fst:
  "fst (chunk lib g req) =
     (case fst (chunk_try lib g req) of Inl e \<Rightarrow> whole_document req | Inr response \<Rightarrow> response)"
  by (cases "chunk_try lib g req") (simp add: chunk_def split: sum.splits)

lemma chunk_body_clean:
  assumes "sent_tok (text req) = Inr sentences" and "sentences \<noteq> []"
    and "\<forall>s\<in>set (usable sentences). tokenizes word_tok s"
  shows "chunk_body sent_tok word_tok req =
    Inr \<lparr>chunks = map group_text (sentence_groups word_tok req sentences),
         count = int (length (sentence_groups word_tok req sentences))\<rparr>"
proof -
  have "\<forall>s\<in>set ([] @ []). tokenizes word_tok s"
    by simp
  from chunk_loop_groups[OF this assms(3), of "max_tokens req" "overlap req" "[]" 0]
  obtain st where "chunk_loop word_tok (max_tokens req) (overlap req) [] [] 0 sentences = Inr st"
    and "flush_remaining st = map group_text (sentence_groups word_tok req sentences)"
    by (auto simp: sentence_groups_def)
  then show ?thesis
    using assms(1,2) by (simp add: chunk_body_def)
qed

lemma chunk_clean_run:
  assumes "fst (get_sent_tokenize lib g) = Inr sent_tok"
    and "fst (get_tokenize lib g) = Inr word_tok"
    and "sent_tok (text req) = Inr sentences" and "sentences \<noteq> []"
    and "\<forall>s\<in>set (usable sentences). tokenizes word_tok s"
  shows "fst (chunk lib g req) =
    \<lparr>chunks = map group_text (sentence_groups word_tok req sentences),
     count = int (length (sentence_groups word_tok req sentences))\<rparr>"
  using chunk_body_clean[of sent_tok req sentences word_tok] assms
  by (simp add: chunk_fst chunk_try_fst)

lemma chunk_body_fails:
  assumes "sent_tok (text req) = Inr sentences"
    and "\<exists>s\<in>set (usable sentences). \<not> tokenizes word_tok s"
  shows "\<exists>e. chunk_body sent_tok word_tok req = Inl e"
proof -
  have "sentences \<noteq> []"
    using assms(2) by (auto simp: usable_Nil)
  moreover have "\<forall>s\<in>set []. tokenizes word_tok s"
    by simp
  from chunk_loop_fails[OF this assms(2), of "max_tokens req" "overlap req" "[]" 0]
  obtain e where "chunk_loop word_tok (max_tokens req) (overlap req) [] [] 0 sentences = Inl e"
    by blast
  ultimately show ?thesis
    using assms(1) by (simp add: chunk_body_def)
qed

lemma adapter_fails_raises:
  assumes "adapter_fails lib g req"
  shows "\<exists>e. fst (chunk_try lib g req) = Inl e"
proof (cases "fst (get_sent_tokenize lib g)")
  case (Inl e)
  then show ?thesis by (simp add: chunk_try_fst)
next
  case st: (Inr sent_tok)
  show ?thesis
  proof (cases "fst (get_tokenize lib g)")
    case (Inl e)
    then show ?thesis using st by (simp add: chunk_try_fst)
  next
    case wt: (Inr word_tok)
    show ?thesis
    proof (cases "sent_tok (text req)")
      case (Inl e)
      then show ?thesis using st wt by (simp add: chunk_try_fst chunk_body_def)
    next
      case (Inr sentences)
      then have "\<exists>s\<in>set (usable sentences). \<not> tokenizes word_tok s"
        using assms st wt by (simp add: adapter_fails_def)
      with chunk_body_fails[of sent_tok req sentences word_tok] Inr show ?thesis
        using st wt by (simp add: chunk_try_fst)
    qed
  qed
qed

lemma str_join_nonempty: "xs \<noteq> [] \<Longrightarrow> hd xs \<noteq> [] \<Longrightarrow> str_join sep xs \<noteq> []"
  by (induction sep xs rule: str_join.induct) simp_all

lemma sentence_groups_members:
  assumes "grp \<in> set (sentence_groups word_tok req sentences)"
  shows "group_sentences grp \<noteq> []" and "set (group_sentences grp) \<subseteq> set (usable sentences)"
proof -
  have grp: "grp \<in> set (chunk_groups (token_count word_tok) (max_tokens req) (overlap req) [] [] 0
      (usable sentences))"
    using assms by (simp add: sentence_groups_def)
  show "group_sentences grp \<noteq> []"
    using chunk_groups_nonempty[OF grp] by (simp add: group_sentences_def)
  show "set (group_sentences grp) \<subseteq> set (usable sentences)"
    using chunk_groups_members[OF grp] by (simp add: group_sentences_def)
qed

lemma get_tokenize_ok:
  "globals_ok lib g \<Longrightarrow>
   fst (get_tokenize lib g) = import_word_tokenize lib \<and> globals_ok lib (snd (get_tokenize lib g))"
  by (auto simp: globals_ok_def get_tokenize_def split: option.splits sum.splits)

lemma get_sent_tokenize_ok:
  "globals_ok lib g \<Longrightarrow>
   fst (get_sent_tokenize lib g) = import_sent_tokenize lib \<and>
   globals_ok lib (snd (get_sent_tokenize lib g))"
  by (auto simp: globals_ok_def get_sent_tokenize_def split: option.splits sum.splits)

lemma chunk_try_snd:
  "globals_ok lib g \<Longrightarrow> globals_ok lib (snd (chunk_try lib g req))"
proof -
  assume ok: "globals_ok lib g"
  obtain r1 g1 where a: "get_sent_tokenize lib g = (r1, g1)"
    by (cases "get_sent_tokenize lib g")
  obtain r2 g2 where b: "get_tokenize lib g1 = (r2, g2)"
    by (cases "get_tokenize lib g1")
  have "globals_ok lib g1"
    using get_sent_tokenize_ok[OF ok] a by simp
  then have "globals_ok lib g2"
    using get_tokenize_ok[of lib g1] b by simp
  then show ?thesis
    using a b \<open>globals_ok lib g1\<close> by (simp add: chunk_try_def split: sum.splits)
qed

lemma chunk_snd: "snd (chunk lib g req) = snd (chunk_try lib g req)"
  by (cases "chunk_try lib g req") (simp add: chunk_def split: sum.splits)

lemma usable_nonempty: "usable sentences \<noteq> [] \<Longrightarrow> sentences \<noteq> []"
  by (auto simp: usable_Nil)

lemma sentence_groups_exist: "usable sentences \<noteq> [] \<Longrightarrow> sentence_groups word_tok req sentences \<noteq> []"
  unfolding sentence_groups_def by (rule chunk_groups_exist) simp

lemma sentence_groups_first:
  "sentence_groups word_tok req sentences \<noteq> [] \<Longrightarrow>
   fst (hd (sentence_groups word_tok req sentences)) = []"
  unfolding sentence_groups_def by (rule chunk_groups_hd)

section \<open>The example package and requests, evaluated\<close>

lemma ex_lib_sent_tok: "fst (get_sent_tokenize ex_lib fresh_globals) = Inr ex_sent_tok"
  by (simp add: get_sent_tokenize_def ex_lib_def fresh_globals_def)

lemma ex_lib_word_tok: "fst (get_tokenize ex_lib fresh_globals) = Inr ex_word_tok"
  by (simp add: get_tokenize_def ex_lib_def fresh_globals_def)

lemma valid_requestI:
  "length (text req) = n \<Longrightarrow> 1 \<le> n \<Longrightarrow> n \<le> 500000 \<Longrightarrow> 50 \<le> max_tokens req \<Longrightarrow>
   max_tokens req \<le> 2000 \<Longrightarrow> 0 \<le> overlap req \<Longrightarrow> overlap req \<le> 200 \<Longrightarrow> valid_request req"
  by (simp add: valid_request_def)

lemma budget_req_valid: "valid_request budget_req"
proof -
  have "length (text budget_req) = 120"
    by code_simp
  then show ?thesis
    by (rule valid_requestI) (simp_all add: budget_req_def)
qed

lemma oversized_req_valid: "valid_request oversized_req"
proof -
  have "length (text oversized_req) = 130"
    by code_simp
  then show ?thesis
    by (rule valid_requestI) (simp_all add: oversized_req_def)
qed

lemma alone_req_sentences:
  "ex_sent_tok (text alone_req) =
     Inr alone_sentences"
  by code_simp

lemma alone_req_usable:
  "usable alone_sentences =
     [words_of (CHR ''a'') 5, words_of (CHR ''b'') 60, words_of (CHR ''c'') 5]"
  by code_simp

lemma alone_req_groups:
  "sentence_groups ex_word_tok alone_req
     alone_sentences =
   [([], [words_of (CHR ''a'') 5]), ([], [words_of (CHR ''b'') 60]), ([], [words_of (CHR ''c'') 5])]"
  by code_simp

lemma ex_req_sentences:
  "ex_sent_tok (text ex_req) =
     Inr ex_sentences"
  by code_simp

lemma ex_req_usable:
  "usable ex_sentences =
     [words_of (CHR ''a'') 20, words_of (CHR ''b'') 20, words_of (CHR ''c'') 20]"
  by code_simp

lemma ex_req_groups:
  "sentence_groups ex_word_tok ex_req
     ex_sentences =
   [([], [words_of (CHR ''a'') 20, words_of (CHR ''b'') 20]),
    ([words_of (CHR ''b'') 20], [words_of (CHR ''c'') 20])]"
  by code_simp

lemma ex_word_tok_counts:
  "token_count ex_word_tok (words_of (CHR ''a'') 20) = 20"
  "token_count ex_word_tok (words_of (CHR ''b'') 20) = 20"
  "token_count ex_word_tok (words_of (CHR ''c'') 20) = 20"
  "token_count ex_word_tok (words_of (CHR ''a'') 5) = 5"
  "token_count ex_word_tok (words_of (CHR ''b'') 60) = 60"
  "token_count ex_word_tok (words_of (CHR ''c'') 5) = 5"
  "token_count ex_word_tok (words_of (CHR ''a'') 30) = 30"
  "token_count ex_word_tok (words_of (CHR ''b'') 30) = 30"
  by code_simp+

lemma ex_word_tok_tokenizes:
  "tokenizes ex_word_tok (words_of (CHR ''a'') 20)"
  "tokenizes ex_word_tok (words_of (CHR ''b'') 20)"
  "tokenizes ex_word_tok (words_of (CHR ''c'') 20)"
  "tokenizes ex_word_tok (words_of (CHR ''a'') 5)"
  "tokenizes ex_word_tok (words_of (CHR ''b'') 60)"
  "tokenizes ex_word_tok (words_of (CHR ''c'') 5)"
  by code_simp+

lemma ex_req_fields: "max_tokens ex_req = 50" "overlap ex_req = 20"
  by (simp_all add: ex_req_def)

lemma alone_req_fields: "max_tokens alone_req = 50" "overlap alone_req = 0"
  by (simp_all add: alone_req_def)

section \<open>The properties of the chunk endpoint\<close>

text \<open>
  C1, as stated, fails: with \<open>max_tokens = 50\<close> and \<open>overlap = 50\<close>, two sentences of 30
  tokens each give a second chunk of 60 tokens, because the sentence is appended to the
  carried overlap without a second look at the budget.
\<close>

theorem chunk_budget_counterexample:
  "valid_request budget_req \<and>
   ex_sent_tok (text budget_req) =
     Inr [words_of (CHR ''a'') 30, '' '' @ words_of (CHR ''b'') 30] \<and>
   token_count ex_word_tok (words_of (CHR ''a'') 30) = 30 \<and>
   token_count ex_word_tok (words_of (CHR ''b'') 30) = 30 \<and>
   max_tokens budget_req = 50 \<and>
   fst (chunk ex_lib fresh_globals budget_req) =
     \<lparr>chunks = [words_of (CHR ''a'') 30,
                words_of (CHR ''a'') 30 @ '' '' @ words_of (CHR ''b'') 30], count = 2\<rparr> \<and>
   sentence_groups ex_word_tok budget_req
       [words_of (CHR ''a'') 30, '' '' @ words_of (CHR ''b'') 30] =
     [([], [words_of (CHR ''a'') 30]), ([words_of (CHR ''a'') 30], [words_of (CHR ''b'') 30])] \<and>
   group_tokens ex_word_tok ([words_of (CHR ''a'') 30], [words_of (CHR ''b'') 30]) = 60 \<and>
   \<not> group_tokens ex_word_tok ([words_of (CHR ''a'') 30], [words_of (CHR ''b'') 30])
       \<le> max_tokens budget_req"
proof (intro conjI)
  show "valid_request budget_req"
    by (rule budget_req_valid)
  show "max_tokens budget_req = 50"
    by (simp add: budget_req_def)
qed code_simp+

text \<open>
  C1, amended. For every document, \<open>max_tokens\<close> and \<open>overlap \<ge> 0\<close>: if every trimmed
  non-blank sentence has a token count that fits the budget together with the overlap
  (count + \<open>overlap\<close> \<le> \<open>max_tokens\<close>; with \<open>overlap = 0\<close> this is count \<le> \<open>max_tokens\<close>),
  then in a run without failure the returned chunks are the joined groups and every
  group's total token count is at most \<open>max_tokens\<close>.
\<close>

theorem chunk_budget:
  assumes "fst (get_sent_tokenize lib g) = Inr sent_tok"
    and "fst (get_tokenize lib g) = Inr word_tok"
    and "sent_tok (text req) = Inr sentences" and "sentences \<noteq> []"
    and "\<forall>s\<in>set (usable sentences). tokenizes word_tok s"
    and "0 \<le> overlap req"
    and "\<forall>s\<in>set (usable sentences). token_count word_tok s + overlap req \<le> max_tokens req"
  shows "chunks (fst (chunk lib g req)) = map group_text (sentence_groups word_tok req sentences) \<and>
    (\<forall>grp\<in>set (sentence_groups word_tok req sentences).
       group_tokens word_tok grp \<le> max_tokens req)"
proof
  show "chunks (fst (chunk lib g req)) = map group_text (sentence_groups word_tok req sentences)"
    using chunk_clean_run[of lib g sent_tok word_tok req sentences] assms(1-5) by simp
  show "\<forall>grp\<in>set (sentence_groups word_tok req sentences).
      group_tokens word_tok grp \<le> max_tokens req"
  proof
    fix grp
    assume "grp \<in> set (sentence_groups word_tok req sentences)"
    then have "grp \<in> set (chunk_groups (token_count word_tok) (max_tokens req) (overlap req)
        [] [] 0 (usable sentences))"
      by (simp add: sentence_groups_def)
    with assms(6,7)
    have "total_tokens (token_count word_tok) (fst grp @ snd grp) \<le> max_tokens req"
      by (intro chunk_groups_budget[where carried = "[]" and fresh = "[]" and n = 0])
        (simp_all add: total_tokens_def)
    then show "group_tokens word_tok grp \<le> max_tokens req"
      by (simp add: group_tokens_def group_sentences_def)
  qed
qed

theorem chunk_budget_witness:
  "chunks (fst (chunk ex_lib fresh_globals ex_req)) =
     [words_of (CHR ''a'') 20 @ '' '' @ words_of (CHR ''b'') 20,
      words_of (CHR ''b'') 20 @ '' '' @ words_of (CHR ''c'') 20] \<and>
   group_tokens ex_word_tok ([], [words_of (CHR ''a'') 20, words_of (CHR ''b'') 20]) \<le> 50 \<and>
   group_tokens ex_word_tok ([words_of (CHR ''b'') 20], [words_of (CHR ''c'') 20]) \<le> 50"
proof -
  have ne: "ex_sentences \<noteq> []"
    by (simp add: ex_sentences_def)
  have tok: "\<forall>s\<in>set (usable ex_sentences). tokenizes ex_word_tok s"
    by (simp add: ex_req_usable ex_word_tok_tokenizes)
  have ov: "0 \<le> overlap ex_req"
    by (simp add: ex_req_fields)
  have fit: "\<forall>s\<in>set (usable ex_sentences).
        token_count ex_word_tok s + overlap ex_req \<le> max_tokens ex_req"
    by (simp add: ex_req_usable ex_word_tok_counts ex_req_fields)
  from chunk_budget[of ex_lib fresh_globals ex_sent_tok ex_word_tok ex_req, OF ex_lib_sent_tok
      ex_lib_word_tok ex_req_sentences ne tok ov fit]
  show ?thesis
    by (simp add: ex_req_groups ex_req_fields group_text_def group_sentences_def)
qed

text \<open>
  C2, as stated, fails: with \<open>max_tokens = 50\<close> and \<open>overlap = 10\<close>, a sentence of 5
  tokens followed by one of 60 gives the chunks \<open>A\<close> and \<open>A B\<close>: the oversized
  sentence shares its chunk with the sentence carried over as overlap.
\<close>

theorem chunk_oversized_counterexample:
  "valid_request oversized_req \<and>
   ex_sent_tok (text oversized_req) =
     Inr [words_of (CHR ''a'') 5, '' '' @ words_of (CHR ''b'') 60] \<and>
   token_count ex_word_tok (words_of (CHR ''b'') 60) = 60 \<and>
   max_tokens oversized_req = 50 \<and>
   fst (chunk ex_lib fresh_globals oversized_req) =
     \<lparr>chunks = [words_of (CHR ''a'') 5,
                words_of (CHR ''a'') 5 @ '' '' @ words_of (CHR ''b'') 60], count = 2\<rparr> \<and>
   sentence_groups ex_word_tok oversized_req
       [words_of (CHR ''a'') 5, '' '' @ words_of (CHR ''b'') 60] =
     [([], [words_of (CHR ''a'') 5]), ([words_of (CHR ''a'') 5], [words_of (CHR ''b'') 60])] \<and>
   group_sentences ([words_of (CHR ''a'') 5], [words_of (CHR ''b'') 60]) =
     [words_of (CHR ''a'') 5, words_of (CHR ''b'') 60] \<and>
   max_tokens oversized_req < token_count ex_word_tok (words_of (CHR ''b'') 60) \<and>
   group_sentences ([words_of (CHR ''a'') 5], [words_of (CHR ''b'') 60]) \<noteq>
     [words_of (CHR ''b'') 60]"
proof (intro conjI)
  show "valid_request oversized_req"
    by (rule oversized_req_valid)
  show "max_tokens oversized_req = 50"
    by (simp add: oversized_req_def)
qed code_simp+

text \<open>
  C2, amended. For every document, \<open>max_tokens\<close> and \<open>overlap\<close>, in a run without
  failure: a sentence whose token count alone exceeds \<open>max_tokens\<close> is the only sentence
  newly added to the chunk that introduces it, so that chunk is the sentences carried
  over from the previous chunk as overlap followed by that sentence alone. With
  \<open>overlap = 0\<close> nothing is carried, and every chunk containing such a sentence contains
  no other sentence.
\<close>

theorem chunk_oversized:
  assumes "fst (get_sent_tokenize lib g) = Inr sent_tok"
    and "fst (get_tokenize lib g) = Inr word_tok"
    and "sent_tok (text req) = Inr sentences" and "sentences \<noteq> []"
    and "\<forall>s\<in>set (usable sentences). tokenizes word_tok s"
  shows "chunks (fst (chunk lib g req)) = map group_text (sentence_groups word_tok req sentences) \<and>
    (\<forall>grp\<in>set (sentence_groups word_tok req sentences). \<forall>s\<in>set (snd grp).
       max_tokens req < token_count word_tok s \<longrightarrow> snd grp = [s]) \<and>
    (overlap req = 0 \<longrightarrow>
       (\<forall>grp\<in>set (sentence_groups word_tok req sentences). \<forall>s\<in>set (group_sentences grp).
          max_tokens req < token_count word_tok s \<longrightarrow> group_sentences grp = [s]))"
proof -
  let ?G = "sentence_groups word_tok req sentences"
  have texts: "chunks (fst (chunk lib g req)) = map group_text ?G"
    using chunk_clean_run[of lib g sent_tok word_tok req sentences] assms by simp
  have fresh: "snd grp = [s]"
    if "grp \<in> set ?G" and "s \<in> set (snd grp)" and "max_tokens req < token_count word_tok s"
    for grp s
  proof -
    have "grp \<in> set (chunk_groups (token_count word_tok) (max_tokens req) (overlap req)
        [] [] 0 (usable sentences))"
      using that(1) by (simp add: sentence_groups_def)
    moreover have "\<forall>s. 0 \<le> token_count word_tok s"
      by (simp add: token_count_nonneg)
    ultimately show ?thesis
      using that(2,3)
      by (intro chunk_groups_oversized[where carried = "[]" and fresh = "[]" and n = 0])
        (simp_all add: total_tokens_def)
  qed
  have alone: "group_sentences grp = [s]"
    if "overlap req = 0" and "grp \<in> set ?G" and "s \<in> set (group_sentences grp)"
      and "max_tokens req < token_count word_tok s"
    for grp s
  proof -
    have "grp \<in> set (chunk_groups (token_count word_tok) (max_tokens req) (overlap req)
        [] [] 0 (usable sentences))"
      using that(2) by (simp add: sentence_groups_def)
    then have "fst grp = []"
      using that(1) by (intro chunk_groups_no_overlap[where carried = "[]"]) simp_all
    then show ?thesis
      using fresh[OF that(2) _ that(4)] that(3) by (simp add: group_sentences_def)
  qed
  show ?thesis
    using texts fresh alone by blast
qed

theorem chunk_oversized_witness:
  "chunks (fst (chunk ex_lib fresh_globals alone_req)) =
     [words_of (CHR ''a'') 5, words_of (CHR ''b'') 60, words_of (CHR ''c'') 5] \<and>
   max_tokens alone_req < token_count ex_word_tok (words_of (CHR ''b'') 60) \<and>
   group_sentences ([], [words_of (CHR ''b'') 60]) = [words_of (CHR ''b'') 60]"
proof -
  have ne: "alone_sentences \<noteq> []"
    by (simp add: alone_sentences_def)
  have tok: "\<forall>s\<in>set (usable alone_sentences). tokenizes ex_word_tok s"
    by (simp add: alone_req_usable ex_word_tok_tokenizes)
  from chunk_oversized[of ex_lib fresh_globals ex_sent_tok ex_word_tok alone_req, OF ex_lib_sent_tok
      ex_lib_word_tok alone_req_sentences ne tok]
  show ?thesis
    by (simp add: alone_req_groups alone_req_fields ex_word_tok_counts group_text_def
        group_sentences_def)
qed

text \<open>
  The two ways a segmentation can have no usable sentence. An empty result takes the early
  return of line 264; a non-empty result of blank sentences runs the loop, which skips
  them all, and nothing is left to flush.
\<close>

lemma chunk_no_sentences:
  assumes "fst (get_sent_tokenize lib g) = Inr sent_tok"
    and "fst (get_tokenize lib g) = Inr word_tok"
    and "sent_tok (text req) = Inr []"
  shows "fst (chunk lib g req) = \<lparr>chunks = [text req], count = 1\<rparr>"
  using assms by (simp add: chunk_fst chunk_try_fst chunk_body_def whole_document_def)

lemma chunk_all_blank:
  assumes "fst (get_sent_tokenize lib g) = Inr sent_tok"
    and "fst (get_tokenize lib g) = Inr word_tok"
    and "sent_tok (text req) = Inr sentences" and "sentences \<noteq> []"
    and "usable sentences = []"
  shows "fst (chunk lib g req) = \<lparr>chunks = [], count = 0\<rparr>"
proof -
  have "\<forall>s\<in>set (usable sentences). tokenizes word_tok s"
    using assms(5) by simp
  from chunk_clean_run[of lib g sent_tok word_tok req sentences, OF assms(1-4) this]
  show ?thesis
    using assms(5) by (simp add: sentence_groups_def)
qed

text \<open>
  C3 at a document of one blank: the segmenter returns the one sentence \<open>'' ''\<close>, which is
  blank after trimming, and the endpoint answers with no chunk at all and \<open>count = 0\<close>,
  not with the document as its single chunk.
\<close>

theorem chunk_blank_document:
  "valid_request blank_req \<and>
   ex_sent_tok (text blank_req) = Inr ['' ''] \<and>
   usable ['' ''] = [] \<and>
   fst (chunk ex_lib fresh_globals blank_req) = \<lparr>chunks = [], count = 0\<rparr> \<and>
   whole_document blank_req = \<lparr>chunks = ['' ''], count = 1\<rparr>"
proof (intro conjI)
  show "valid_request blank_req"
    by (simp add: valid_request_def blank_req_def)
qed code_simp+

text \<open>
  C4. The endpoint is a total function to responses, so it never signals an error. When
  some step raises (an import, the segmenter, or the tokenizer on a trimmed non-blank
  sentence), the body of the \<^verbatim>\<open>try\<close> raises and the response is the whole document as
  the single chunk, with \<open>count = 1\<close>.
\<close>

theorem chunk_degrades:
  assumes "adapter_fails lib g req"
  shows "(\<exists>e. fst (chunk_try lib g req) = Inl e) \<and>
    fst (chunk lib g req) = \<lparr>chunks = [text req], count = 1\<rparr>"
proof -
  obtain e where "fst (chunk_try lib g req) = Inl e"
    using adapter_fails_raises[OF assms] by blast
  then show ?thesis
    by (simp add: chunk_fst whole_document_def)
qed

theorem chunk_degrades_witness:
  "adapter_fails ex_lib fresh_globals failing_req \<and>
   fst (chunk ex_lib fresh_globals failing_req) = \<lparr>chunks = [''a b. c #''], count = 1\<rparr>"
proof -
  have fails: "adapter_fails ex_lib fresh_globals failing_req"
    by code_simp
  have "text failing_req = ''a b. c #''"
    by (simp add: failing_req_def)
  with chunk_degrades[OF fails] fails show ?thesis
    by simp
qed

text \<open>
  C5. For every document, \<open>max_tokens\<close> and \<open>overlap \<ge> 0\<close>, in a run without failure:
  every chunk after the first is a group \<open>carried @ fresh\<close> whose carried sentences are a
  suffix of the previous chunk's sentences (so in their original order), their token
  count is at most \<open>overlap\<close>, and with \<open>overlap = 0\<close> nothing is carried.
\<close>

theorem chunk_overlap_bound:
  assumes "fst (get_sent_tokenize lib g) = Inr sent_tok"
    and "fst (get_tokenize lib g) = Inr word_tok"
    and "sent_tok (text req) = Inr sentences" and "sentences \<noteq> []"
    and "\<forall>s\<in>set (usable sentences). tokenizes word_tok s"
    and "0 \<le> overlap req"
  shows "chunks (fst (chunk lib g req)) = map group_text (sentence_groups word_tok req sentences) \<and>
    (\<forall>i. Suc i < length (sentence_groups word_tok req sentences) \<longrightarrow>
       suffix (fst (sentence_groups word_tok req sentences ! Suc i))
         (group_sentences (sentence_groups word_tok req sentences ! i)) \<and>
       total_tokens (token_count word_tok) (fst (sentence_groups word_tok req sentences ! Suc i))
         \<le> overlap req \<and>
       (overlap req = 0 \<longrightarrow> fst (sentence_groups word_tok req sentences ! Suc i) = []))"
proof (intro conjI allI impI)
  show "chunks (fst (chunk lib g req)) = map group_text (sentence_groups word_tok req sentences)"
    using chunk_clean_run[of lib g sent_tok word_tok req sentences] assms(1-5) by simp
next
  fix i
  assume "Suc i < length (sentence_groups word_tok req sentences)"
  then have i: "Suc i < length (chunk_groups (token_count word_tok) (max_tokens req) (overlap req)
      [] [] 0 (usable sentences))"
    by (simp add: sentence_groups_def)
  note linked = chunk_groups_linked[OF i, folded sentence_groups_def]
  show "suffix (fst (sentence_groups word_tok req sentences ! Suc i))
      (group_sentences (sentence_groups word_tok req sentences ! i))"
    using linked by simp
  show "total_tokens (token_count word_tok) (fst (sentence_groups word_tok req sentences ! Suc i))
      \<le> overlap req"
    using linked assms(6) by simp
  show "fst (sentence_groups word_tok req sentences ! Suc i) = []" if "overlap req = 0"
    using linked that by simp
qed

theorem chunk_overlap_bound_witness:
  "chunks (fst (chunk ex_lib fresh_globals ex_req)) =
     [words_of (CHR ''a'') 20 @ '' '' @ words_of (CHR ''b'') 20,
      words_of (CHR ''b'') 20 @ '' '' @ words_of (CHR ''c'') 20] \<and>
   suffix [words_of (CHR ''b'') 20] [words_of (CHR ''a'') 20, words_of (CHR ''b'') 20] \<and>
   total_tokens (token_count ex_word_tok) [words_of (CHR ''b'') 20] \<le> overlap ex_req"
proof -
  have ne: "ex_sentences \<noteq> []"
    by (simp add: ex_sentences_def)
  have tok: "\<forall>s\<in>set (usable ex_sentences). tokenizes ex_word_tok s"
    by (simp add: ex_req_usable ex_word_tok_tokenizes)
  have ov: "0 \<le> overlap ex_req"
    by (simp add: ex_req_fields)
  note th = chunk_overlap_bound[of ex_lib fresh_globals ex_sent_tok ex_word_tok ex_req,
      OF ex_lib_sent_tok ex_lib_word_tok ex_req_sentences ne tok ov]
  from th[THEN conjunct1] th[THEN conjunct2, THEN spec, of 0]
  show ?thesis
    by (simp add: ex_req_groups group_text_def group_sentences_def)
qed

text \<open>
  C6. For every document whose segmentation yields at least one non-blank sentence, in
  a run without failure: the first chunk carries nothing over, every later chunk is
  \<open>carried @ fresh\<close> with \<open>carried\<close> a suffix of the chunk before it, and the sentences of
  the first chunk followed by the fresh sentences of the later chunks are exactly the
  trimmed non-blank sentences of the segmentation, each once and in order.
\<close>

theorem chunk_coverage:
  assumes "fst (get_sent_tokenize lib g) = Inr sent_tok"
    and "fst (get_tokenize lib g) = Inr word_tok"
    and "sent_tok (text req) = Inr sentences"
    and "\<forall>s\<in>set (usable sentences). tokenizes word_tok s"
    and "usable sentences \<noteq> []"
  shows "chunks (fst (chunk lib g req)) = map group_text (sentence_groups word_tok req sentences) \<and>
    sentence_groups word_tok req sentences \<noteq> [] \<and>
    fst (hd (sentence_groups word_tok req sentences)) = [] \<and>
    (\<forall>i. Suc i < length (sentence_groups word_tok req sentences) \<longrightarrow>
       suffix (fst (sentence_groups word_tok req sentences ! Suc i))
         (group_sentences (sentence_groups word_tok req sentences ! i))) \<and>
    group_sentences (hd (sentence_groups word_tok req sentences)) @
      concat (map snd (tl (sentence_groups word_tok req sentences))) = usable sentences"
proof -
  let ?G = "sentence_groups word_tok req sentences"
  have "sentences \<noteq> []"
    using assms(5) by (rule usable_nonempty)
  then have texts: "chunks (fst (chunk lib g req)) = map group_text ?G"
    using chunk_clean_run[of lib g sent_tok word_tok req sentences] assms(1-4) by simp
  have ne: "?G \<noteq> []"
    using assms(5) by (rule sentence_groups_exist)
  then have first: "fst (hd ?G) = []"
    by (rule sentence_groups_first)
  have link: "suffix (fst (?G ! Suc i)) (group_sentences (?G ! i))" if "Suc i < length ?G" for i
  proof -
    have "Suc i < length (chunk_groups (token_count word_tok) (max_tokens req) (overlap req)
        [] [] 0 (usable sentences))"
      using that by (simp add: sentence_groups_def)
    from chunk_groups_linked[OF this, folded sentence_groups_def] show ?thesis
      by simp
  qed
  have "concat (map snd ?G) = usable sentences"
    unfolding sentence_groups_def by (simp add: chunk_groups_fresh)
  moreover have "?G = hd ?G # tl ?G"
    using ne by simp
  ultimately have "snd (hd ?G) @ concat (map snd (tl ?G)) = usable sentences"
    by (metis concat.simps(2) list.simps(9))
  then have cover: "group_sentences (hd ?G) @ concat (map snd (tl ?G)) = usable sentences"
    using first by (simp add: group_sentences_def)
  show ?thesis
    using texts ne first link cover by blast
qed

theorem chunk_coverage_witness:
  "chunks (fst (chunk ex_lib fresh_globals ex_req)) =
     [words_of (CHR ''a'') 20 @ '' '' @ words_of (CHR ''b'') 20,
      words_of (CHR ''b'') 20 @ '' '' @ words_of (CHR ''c'') 20] \<and>
   [words_of (CHR ''a'') 20, words_of (CHR ''b'') 20] @ [words_of (CHR ''c'') 20] =
     usable ex_sentences"
proof -
  have tok: "\<forall>s\<in>set (usable ex_sentences). tokenizes ex_word_tok s"
    by (simp add: ex_req_usable ex_word_tok_tokenizes)
  have ne: "usable ex_sentences \<noteq> []"
    by (simp add: ex_req_usable)
  note th = chunk_coverage[of ex_lib fresh_globals ex_sent_tok ex_word_tok ex_req,
      OF ex_lib_sent_tok ex_lib_word_tok ex_req_sentences tok ne]
  from th show ?thesis
    by (simp add: ex_req_groups group_text_def group_sentences_def)
qed

text \<open>
  C7. In a run without failure, every returned chunk is the join, with one blank between
  neighbours, of the sentences of its group; each such sentence is one of the trimmed
  non-blank sentences of the segmentation, so it is not empty and trimming leaves it
  unchanged; and the loop ends in the same chunks, buffer and token total on the
  segmenter's sentences as on their trimmed non-blank ones alone: the blank sentences
  reach no chunk and no count.
\<close>

theorem chunk_texts:
  assumes "fst (get_sent_tokenize lib g) = Inr sent_tok"
    and "fst (get_tokenize lib g) = Inr word_tok"
    and "sent_tok (text req) = Inr sentences" and "sentences \<noteq> []"
    and "\<forall>s\<in>set (usable sentences). tokenizes word_tok s"
  shows "chunks (fst (chunk lib g req)) =
      map (\<lambda>grp. str_join '' '' (group_sentences grp)) (sentence_groups word_tok req sentences) \<and>
    (\<forall>grp\<in>set (sentence_groups word_tok req sentences). \<forall>s\<in>set (group_sentences grp).
       s \<in> set (usable sentences) \<and> s \<noteq> [] \<and> strip s = s) \<and>
    chunk_loop word_tok (max_tokens req) (overlap req) [] [] 0 sentences =
      chunk_loop word_tok (max_tokens req) (overlap req) [] [] 0 (usable sentences)"
proof (intro conjI ballI)
  have "chunks (fst (chunk lib g req)) = map group_text (sentence_groups word_tok req sentences)"
    using chunk_clean_run[of lib g sent_tok word_tok req sentences] assms by simp
  also have "group_text = (\<lambda>grp. str_join '' '' (group_sentences grp))"
    by (rule ext) (simp add: group_text_def)
  finally show "chunks (fst (chunk lib g req)) =
      map (\<lambda>grp. str_join '' '' (group_sentences grp)) (sentence_groups word_tok req sentences)" .
next
  fix grp s
  assume "grp \<in> set (sentence_groups word_tok req sentences)" and "s \<in> set (group_sentences grp)"
  then show s: "s \<in> set (usable sentences)"
    using sentence_groups_members(2) by blast
  then show "s \<noteq> []" and "strip s = s"
    using usable_fixed by blast+
next
  show "chunk_loop word_tok (max_tokens req) (overlap req) [] [] 0 sentences =
      chunk_loop word_tok (max_tokens req) (overlap req) [] [] 0 (usable sentences)"
    by (simp add: chunk_loop_usable)
qed

theorem chunk_texts_witness:
  "chunks (fst (chunk ex_lib fresh_globals ex_req)) =
     [str_join '' '' [words_of (CHR ''a'') 20, words_of (CHR ''b'') 20],
      str_join '' '' [words_of (CHR ''b'') 20, words_of (CHR ''c'') 20]] \<and>
   usable ex_sentences = [words_of (CHR ''a'') 20, words_of (CHR ''b'') 20, words_of (CHR ''c'') 20] \<and>
   length ex_sentences = 4"
proof -
  have ne: "ex_sentences \<noteq> []"
    by (simp add: ex_sentences_def)
  have tok: "\<forall>s\<in>set (usable ex_sentences). tokenizes ex_word_tok s"
    by (simp add: ex_req_usable ex_word_tok_tokenizes)
  note th = chunk_texts[of ex_lib fresh_globals ex_sent_tok ex_word_tok ex_req,
      OF ex_lib_sent_tok ex_lib_word_tok ex_req_sentences ne tok]
  have "length ex_sentences = 4"
    by (simp add: ex_sentences_def)
  with th[THEN conjunct1] show ?thesis
    by (simp add: ex_req_groups ex_req_usable group_sentences_def)
qed

text \<open>
  C8. The variant that caches each sentence's token count in the main pass and reuses it
  in the backward overlap scan returns exactly what the endpoint returns, for every
  package, state of the module globals, document, \<open>max_tokens\<close> and \<open>overlap\<close>: the
  same response (also when a step raises) and the same globals. The tokenizer is
  a function of its argument, which is the determinism the claim assumes.
\<close>

theorem chunk_cached_equiv: "chunk_cached lib g req = chunk lib g req"
proof -
  have "chunk_try_cached lib g req = chunk_try lib g req"
    unfolding chunk_try_cached_def chunk_try_def
    by (simp only: chunk_body_cached_eq)
  then show ?thesis
    unfolding chunk_cached_def chunk_def by (rule arg_cong)
qed

text \<open>
  C9. Whatever the module globals hold (each cache empty, or filled by an earlier call
  with what the import yields), the response to a request is the same, and the call
  leaves the globals in such a state again: the response is a function of the
  document, \<open>max_tokens\<close> and \<open>overlap\<close> and of the package's two functions, and no
  earlier call changes it.
\<close>

theorem chunk_pure:
  assumes "globals_ok lib g" and "globals_ok lib g'"
  shows "fst (chunk lib g req) = fst (chunk lib g' req) \<and> globals_ok lib (snd (chunk lib g req))"
proof
  have "fst (get_sent_tokenize lib g) = fst (get_sent_tokenize lib g')"
    using get_sent_tokenize_ok[OF assms(1)] get_sent_tokenize_ok[OF assms(2)] by simp
  moreover have "fst (get_tokenize lib g) = fst (get_tokenize lib g')"
    using get_tokenize_ok[OF assms(1)] get_tokenize_ok[OF assms(2)] by simp
  ultimately have "fst (chunk_try lib g req) = fst (chunk_try lib g' req)"
    by (simp only: chunk_try_fst)
  then show "fst (chunk lib g req) = fst (chunk lib g' req)"
    by (simp add: chunk_fst)
  show "globals_ok lib (snd (chunk lib g req))"
    using chunk_try_snd[OF assms(1)] by (simp add: chunk_snd)
qed

theorem chunk_pure_witness:
  "snd (chunk ex_lib fresh_globals ex_req) =
     \<lparr>g_tokenize = Some ex_word_tok, g_sent_tokenize = Some ex_sent_tok\<rparr> \<and>
   fst (chunk ex_lib (snd (chunk ex_lib fresh_globals ex_req)) ex_req) =
     fst (chunk ex_lib fresh_globals ex_req)"
proof -
  have ok0: "globals_ok ex_lib fresh_globals"
    by (simp add: globals_ok_def fresh_globals_def)
  from chunk_pure[OF ok0 ok0, of ex_req]
  have ok1: "globals_ok ex_lib (snd (chunk ex_lib fresh_globals ex_req))"
    by simp
  have "snd (chunk ex_lib fresh_globals ex_req) =
      \<lparr>g_tokenize = Some ex_word_tok, g_sent_tokenize = Some ex_sent_tok\<rparr>"
    by (simp add: chunk_snd chunk_try_def get_sent_tokenize_def get_tokenize_def ex_lib_def
        fresh_globals_def)
  with chunk_pure[OF ok1 ok0, of ex_req] show ?thesis
    by simp
qed

text \<open>
  C10. For every document whose segmentation yields at least one non-blank sentence, in
  a run without failure, the returned list of chunks is not empty, \<open>count\<close> is at least
  1, and no chunk in it is the empty string.
\<close>

theorem chunk_nonempty:
  assumes "fst (get_sent_tokenize lib g) = Inr sent_tok"
    and "fst (get_tokenize lib g) = Inr word_tok"
    and "sent_tok (text req) = Inr sentences"
    and "\<forall>s\<in>set (usable sentences). tokenizes word_tok s"
    and "usable sentences \<noteq> []"
  shows "chunks (fst (chunk lib g req)) \<noteq> [] \<and> 1 \<le> count (fst (chunk lib g req)) \<and>
    (\<forall>c\<in>set (chunks (fst (chunk lib g req))). c \<noteq> [])"
proof -
  let ?G = "sentence_groups word_tok req sentences"
  have "sentences \<noteq> []"
    using assms(5) by (rule usable_nonempty)
  then have run: "fst (chunk lib g req) = \<lparr>chunks = map group_text ?G, count = int (length ?G)\<rparr>"
    using chunk_clean_run[of lib g sent_tok word_tok req sentences] assms(1-4) by simp
  have ne: "?G \<noteq> []"
    using assms(5) by (rule sentence_groups_exist)
  then have "1 \<le> int (length ?G)"
    by (cases ?G) simp_all
  moreover have "group_text grp \<noteq> []" if "grp \<in> set ?G" for grp
  proof -
    have "group_sentences grp \<noteq> []"
      using that by (rule sentence_groups_members(1))
    moreover from this have "hd (group_sentences grp) \<in> set (usable sentences)"
      using sentence_groups_members(2)[OF that] by auto
    then have "hd (group_sentences grp) \<noteq> []"
      using usable_fixed by blast
    ultimately show ?thesis
      unfolding group_text_def by (rule str_join_nonempty)
  qed
  ultimately show ?thesis
    using run ne by auto
qed

theorem chunk_nonempty_witness:
  "chunks (fst (chunk ex_lib fresh_globals alone_req)) =
     [words_of (CHR ''a'') 5, words_of (CHR ''b'') 60, words_of (CHR ''c'') 5] \<and>
   1 \<le> count (fst (chunk ex_lib fresh_globals alone_req)) \<and>
   words_of (CHR ''a'') 5 \<noteq> [] \<and> words_of (CHR ''b'') 60 \<noteq> [] \<and> words_of (CHR ''c'') 5 \<noteq> []"
proof -
  have tok: "\<forall>s\<in>set (usable alone_sentences). tokenizes ex_word_tok s"
    by (simp add: alone_req_usable ex_word_tok_tokenizes)
  have ne: "usable alone_sentences \<noteq> []"
    by (simp add: alone_req_usable)
  have run: "chunks (fst (chunk ex_lib fresh_globals alone_req)) =
      [words_of (CHR ''a'') 5, words_of (CHR ''b'') 60, words_of (CHR ''c'') 5]"
    by code_simp
  from chunk_nonempty[of ex_lib fresh_globals ex_sent_tok ex_word_tok alone_req,
      OF ex_lib_sent_tok ex_lib_word_tok alone_req_sentences tok ne] run
  show ?thesis
    by simp
qed

end
